theory Spec2Isabelle
  imports Main "HOL-Library.Word"
begin

section \<open>The fiber task scheduler of FiberTaskingLib (source/task\_scheduler.cpp)\<close>

text \<open>
  A shallow embedding of \<^verbatim>\<open>ftl::TaskScheduler\<close>. Pointers are addresses (\<open>nat\<close>), a
  nullable pointer is an \<open>option\<close>. C++ \<^verbatim>\<open>unsigned\<close> is \<open>32 word\<close>, the atomic
  \<^verbatim>\<open>int\<close> spin counter is a \<open>32 word\<close> read through \<open>sint\<close>. Every array access
  is checked where the element is read or written (taking the address of an element
  checks nothing): an index outside the array is the error \<open>OutOfBounds\<close>. A failed
  assertion ends the call with \<open>AssertionFailed\<close>. A function that leaves through a fiber
  switch yields \<open>Switched\<close> with the state at the switch; what the fiber does when it is
  resumed is a function of its own.
\<close>

subsection \<open>Data model\<close>

type_synonym u32 = "32 word"

datatype error = OutOfBounds | NullPointer | DivisionByZero | AssertionFailed string

text \<open>A task function pointer: null, the address of the sentinel \<^verbatim>\<open>ReadyFiberDummyTask\<close>
  (lines 120-125), or any other function.\<close>

datatype TaskFunction = NullFunction | ReadyFiberDummyTask | UserFunction nat

record Task =
  Function :: TaskFunction
  ArgData :: nat

record TaskBundle =
  TaskToExecute :: Task
  Counter :: "nat option"

record ReadyFiberBundle =
  Fiber :: "nat option"
  FiberIsSwitched :: bool
  SpinCount :: u32

datatype FiberDestination = FiberDestination_None | ToPool | ToWaiting

datatype EmptyQueueBehavior = Spin | Yield | Sleep

text \<open>\<^verbatim>\<open>enum class TaskPriority\<close> has the enumerators \<open>High\<close> and \<open>Normal\<close>; an object of
  the enumeration type can hold any other value of its underlying type, which is
  \<open>OtherPriority\<close>.\<close>

datatype TaskPriority = High | Normal | OtherPriority nat

text \<open>The wait-free deque of a worker is a list whose head is the bottom, the end of the
  owner's \<^verbatim>\<open>Push\<close> and \<^verbatim>\<open>Pop\<close>; \<^verbatim>\<open>Steal\<close> takes the last element, the top.\<close>

record ThreadLocalStorage =
  CurrentFiber :: "nat option"
  OldFiber :: "nat option"
  OldFiberDestination :: FiberDestination
  OldFiberStoredFlag :: "nat option"
  HiPriTaskQueue :: "TaskBundle list"
  LoPriTaskQueue :: "TaskBundle list"
  HiPriLastSuccessfulSteal :: u32
  LoPriLastSuccessfulSteal :: u32
  FailedQueuePopAttempts :: u32
  PinnedReadyFibers :: "nat list"

datatype QueueId = HiPri | LoPri

datatype Mutex = ThreadSleepLock | PinnedReadyFibersLock nat

text \<open>The effects of the scheduler on the world outside its own fields, in program order.\<close>

datatype event =
    CounterAdd nat u32
  | QueuePush nat QueueId TaskBundle
  | NotifyOne
  | NotifyAll
  | CVWait
  | YieldThread
  | Lock Mutex
  | Unlock Mutex
  | OnThreadsCreated u32
  | OnFibersCreated u32
  | OnFiberAttached "nat option"
  | OnFiberDetached "nat option" bool
  | ThreadCreated nat "nat option"

record EventCallbacks =
  has_OnThreadsCreated :: bool
  has_OnFibersCreated :: bool
  has_OnFiberAttached :: bool
  has_OnFiberDetached :: bool

record TaskSchedulerInitOptions =
  ThreadPoolSize :: u32
  SetAffinity :: bool
  Behavior :: EmptyQueueBehavior
  Callbacks :: EventCallbacks

record TaskScheduler =
  m_numThreads :: u32
  m_threads :: "nat list"
  m_tls :: "ThreadLocalStorage list"
  m_mainFiber :: nat
  m_initialized :: bool
  m_quit :: bool
  m_emptyQueueBehavior :: EmptyQueueBehavior
  m_callbacks :: EventCallbacks
  bundles :: "nat \<Rightarrow> ReadyFiberBundle"
  live_bundles :: "nat list"
  live_fibers :: "nat list"
  counter_value :: "nat \<Rightarrow> u32"
  counter_waiters :: "nat \<Rightarrow> (nat \<times> u32 \<times> u32) list"
  events :: "event list"

text \<open>What the file takes from its headers and from the platform: the identity of the
  calling thread, the two index constants of \<^verbatim>\<open>task_scheduler.h\<close>, whether
  \<^verbatim>\<open>FTL_ASSERT\<close> checks its condition (a debug build) or expands to nothing, the number
  of hardware threads, and the handle \<^verbatim>\<open>CreateThread\<close> returns for worker \<open>i\<close>
  (\<open>None\<close> when it fails).\<close>

record platform =
  self :: nat
  kInvalidIndex :: u32
  kNoThreadPinning :: u32
  asserts_enabled :: bool
  GetNumHardwareThreads :: u32
  CreateThread :: "nat \<Rightarrow> nat option"

definition kFailedPopAttemptsHeuristic :: u32 where
  "kFailedPopAttemptsHeuristic = 25"

definition kInitErrorDoubleCall :: int where
  "kInitErrorDoubleCall = - 30"

definition kInitErrorFailedToCreateWorkerThread :: int where
  "kInitErrorFailedToCreateWorkerThread = - 60"

definition emit :: "event \<Rightarrow> TaskScheduler \<Rightarrow> TaskScheduler" where
  "emit e s = s\<lparr>events := events s @ [e]\<rparr>"

definition default_tls :: ThreadLocalStorage where
  "default_tls = \<lparr>CurrentFiber = None, OldFiber = None,
     OldFiberDestination = FiberDestination_None, OldFiberStoredFlag = None,
     HiPriTaskQueue = [], LoPriTaskQueue = [],
     HiPriLastSuccessfulSteal = 0, LoPriLastSuccessfulSteal = 0,
     FailedQueuePopAttempts = 0, PinnedReadyFibers = []\<rparr>"

text \<open>The arrays \<^verbatim>\<open>m_threads\<close> and \<^verbatim>\<open>m_tls\<close> are allocated with \<^verbatim>\<open>m_numThreads\<close>
  elements (lines 405 and 410).\<close>

definition arrays_allocated :: "TaskScheduler \<Rightarrow> bool" where
  "arrays_allocated s \<longleftrightarrow>
     length (m_threads s) = unat (m_numThreads s) \<and> length (m_tls s) = unat (m_numThreads s)"

subsection \<open>GetCurrentThreadIndex (lines 618-630)\<close>

function GetCurrentThreadIndex_from :: "platform \<Rightarrow> TaskScheduler \<Rightarrow> nat \<Rightarrow> error + u32" where
  "GetCurrentThreadIndex_from p s i =
     (if i < unat (m_numThreads s) then
        (if i < length (m_threads s) then
           (if m_threads s ! i = self p then Inr (word_of_nat i)
            else GetCurrentThreadIndex_from p s (Suc i))
         else Inl OutOfBounds)
      else Inr (kInvalidIndex p))"
  by pat_completeness auto
termination
  by (relation "measure (\<lambda>(p, s, i). unat (m_numThreads s) - i)") auto

declare GetCurrentThreadIndex_from.simps [simp del]

definition GetCurrentThreadIndex :: "platform \<Rightarrow> TaskScheduler \<Rightarrow> error + u32" where
  "GetCurrentThreadIndex p s = GetCurrentThreadIndex_from p s 0"

subsection \<open>Init (lines 381-482)\<close>

text \<open>The loop that creates the workers \<open>i, i + 1, ..., m_numThreads - 1\<close>: \<open>Inr None\<close> when
  every thread was created, \<open>Inr (Some code)\<close> for the early return.\<close>

function create_workers ::
  "platform \<Rightarrow> TaskSchedulerInitOptions \<Rightarrow> nat \<Rightarrow> TaskScheduler \<Rightarrow> error + (int option \<times> TaskScheduler)" where
  "create_workers p opts i s =
     (if i < unat (m_numThreads s) then
        (if SetAffinity opts \<and> GetNumHardwareThreads p = 0 then Inl DivisionByZero
         else if \<not> i < length (m_threads s) then Inl OutOfBounds
         else
           (case CreateThread p i of
              None \<Rightarrow> Inr (Some kInitErrorFailedToCreateWorkerThread, s)
            | Some h \<Rightarrow>
                create_workers p opts (Suc i)
                  (emit (ThreadCreated i
                      (if SetAffinity opts
                       then Some (unat ((word_of_nat i :: u32) mod GetNumHardwareThreads p))
                       else None))
                    (s\<lparr>m_threads := (m_threads s)[i := h]\<rparr>))))
      else Inr (None, s))"
  by pat_completeness auto
termination
  by (relation "measure (\<lambda>(p, opts, i, s). unat (m_numThreads s) - i)")
     (auto simp: emit_def)

declare create_workers.simps [simp del]

definition Init ::
  "platform \<Rightarrow> TaskSchedulerInitOptions \<Rightarrow> TaskScheduler \<Rightarrow> error + (int \<times> TaskScheduler)" where
  "Init p opts s =
     (if m_initialized s then Inr (kInitErrorDoubleCall, s)
      else
        let s1 = s\<lparr>m_callbacks := Callbacks opts\<rparr>;
            s2 = s1\<lparr>m_emptyQueueBehavior := Behavior opts\<rparr>;
            s3 = (if ThreadPoolSize opts = 0
                  then s2\<lparr>m_numThreads := GetNumHardwareThreads p\<rparr>
                  else s2\<lparr>m_numThreads := ThreadPoolSize opts\<rparr>);
            s4 = s3\<lparr>m_threads := replicate (unat (m_numThreads s3)) 0\<rparr>;
            s5 = s4\<lparr>m_tls := replicate (unat (m_numThreads s4)) default_tls\<rparr>;
            s6 = (if has_OnThreadsCreated (m_callbacks s5)
                  then emit (OnThreadsCreated (m_numThreads s5)) s5 else s5);
            s7 = (if has_OnFibersCreated (m_callbacks s6)
                  then emit (OnFibersCreated 1) s6 else s6)
        in
          if \<not> 0 < length (m_threads s7) then Inl OutOfBounds
          else
            let s8 = s7\<lparr>m_threads := (m_threads s7)[0 := self p]\<rparr> in
            if \<not> 0 < length (m_tls s8) then Inl OutOfBounds
            else
              let s9 = s8\<lparr>m_tls := (m_tls s8)[0 := (m_tls s8 ! 0)\<lparr>CurrentFiber := Some (m_mainFiber s8)\<rparr>]\<rparr> in
              (case create_workers p opts 1 s9 of
                 Inl e \<Rightarrow> Inl e
               | Inr (Some code, s10) \<Rightarrow> Inr (code, s10)
               | Inr (None, s10) \<Rightarrow>
                   let s11 = (if has_OnFiberAttached (m_callbacks s10)
                              then emit (OnFiberAttached None) s10 else s10)
                   in Inr (0, s11\<lparr>m_initialized := True\<rparr>)))"

subsection \<open>Counters and queues\<close>

text \<open>Modelled from the spec: \<^verbatim>\<open>TaskCounter::Add\<close> is declared in \<^verbatim>\<open>ftl/task_counter.h\<close>,
  which is not part of the sources at hand. The spec describes it as an atomic add of
  \<open>n\<close> to the counter's value; the value is an \<^verbatim>\<open>unsigned\<close>.\<close>

definition Counter_Add :: "nat \<Rightarrow> u32 \<Rightarrow> TaskScheduler \<Rightarrow> TaskScheduler" where
  "Counter_Add c n s =
     emit (CounterAdd c n) (s\<lparr>counter_value := (counter_value s)(c := counter_value s c + n)\<rparr>)"

definition queue_of :: "QueueId \<Rightarrow> ThreadLocalStorage \<Rightarrow> TaskBundle list" where
  "queue_of q tls = (case q of HiPri \<Rightarrow> HiPriTaskQueue tls | LoPri \<Rightarrow> LoPriTaskQueue tls)"

definition set_queue :: "QueueId \<Rightarrow> TaskBundle list \<Rightarrow> ThreadLocalStorage \<Rightarrow> ThreadLocalStorage" where
  "set_queue q xs tls =
     (case q of HiPri \<Rightarrow> tls\<lparr>HiPriTaskQueue := xs\<rparr> | LoPri \<Rightarrow> tls\<lparr>LoPriTaskQueue := xs\<rparr>)"

text \<open>Modelled from the spec: \<^verbatim>\<open>WaitFreeQueue\<close> is declared in \<^verbatim>\<open>ftl/wait_free_queue.h\<close>,
  which is not part of the sources at hand. The spec gives the owner \<^verbatim>\<open>Push\<close> and
  \<^verbatim>\<open>Pop\<close> at the bottom and the thieves \<^verbatim>\<open>Steal\<close> at the top. \<open>push_at\<close> is the
  push onto queue \<open>q\<close> of \<^verbatim>\<open>m_tls[i]\<close>, for an index already known to be in range.\<close>

definition push_at :: "nat \<Rightarrow> QueueId \<Rightarrow> TaskBundle \<Rightarrow> TaskScheduler \<Rightarrow> TaskScheduler" where
  "push_at i q b s =
     emit (QueuePush i q b)
       (s\<lparr>m_tls := (m_tls s)[i := set_queue q (b # queue_of q (m_tls s ! i)) (m_tls s ! i)]\<rparr>)"

definition Push :: "nat \<Rightarrow> QueueId \<Rightarrow> TaskBundle \<Rightarrow> TaskScheduler \<Rightarrow> error + TaskScheduler" where
  "Push i q b s = (if i < length (m_tls s) then Inr (push_at i q b s) else Inl OutOfBounds)"

subsection \<open>AddTask (lines 528-560) and AddTasks (lines 562-598)\<close>

text \<open>Modelled from the spec: the macro \<^verbatim>\<open>FTL_ASSERT\<close> is defined in a header that is not
  part of the sources at hand. The spec has invalid arguments raised through an
  assertion in debug builds; in a release build the macro checks nothing.\<close>

definition FTL_ASSERT :: "platform \<Rightarrow> string \<Rightarrow> bool \<Rightarrow> bool" where
  "FTL_ASSERT p msg expr \<longleftrightarrow> asserts_enabled p \<and> \<not> expr"

definition AddTask ::
  "platform \<Rightarrow> Task \<Rightarrow> TaskPriority \<Rightarrow> nat option \<Rightarrow> TaskScheduler \<Rightarrow> error + TaskScheduler" where
  "AddTask p task priority counter s =
     (if FTL_ASSERT p ''Task given to TaskScheduler:AddTask has a nullptr Function''
           (Function task \<noteq> NullFunction)
      then Inl (AssertionFailed ''Task given to TaskScheduler:AddTask has a nullptr Function'')
      else
        let s1 = (case counter of None \<Rightarrow> s | Some c \<Rightarrow> Counter_Add c 1 s) in
        (case GetCurrentThreadIndex p s1 of
           Inl e \<Rightarrow> Inl e
         | Inr ti \<Rightarrow>
             let threadIndex = (if ti = kInvalidIndex p then 0 else ti);
                 bundle = \<lparr>TaskToExecute = task, Counter = counter\<rparr>
             in
               (case (if priority = High then Push (unat threadIndex) HiPri bundle s1
                      else if priority = Normal then Push (unat threadIndex) LoPri bundle s1
                      else Inr s1) of
                  Inl e \<Rightarrow> Inl e
                | Inr s2 \<Rightarrow>
                    Inr (if m_emptyQueueBehavior s2 = Sleep then emit NotifyOne s2 else s2))))"

text \<open>The loop of lines 585-590 from index \<open>i\<close> on; \<open>ti\<close> and \<open>q\<close> are the queue chosen
  before the loop. Lines 572-579 only take the address of the queue; the queue is first used
  by the \<^verbatim>\<open>Push\<close> of line 589, which is where an index outside \<^verbatim>\<open>m_tls\<close> shows.\<close>

function AddTasks_loop ::
  "platform \<Rightarrow> u32 \<Rightarrow> Task list \<Rightarrow> nat option \<Rightarrow> nat \<Rightarrow> QueueId \<Rightarrow> nat \<Rightarrow> TaskScheduler
     \<Rightarrow> error + TaskScheduler" where
  "AddTasks_loop p numTasks tasks counter ti q i s =
     (if i < unat numTasks then
        (if \<not> i < length tasks then Inl OutOfBounds
         else if FTL_ASSERT p ''Task given to TaskScheduler:AddTasks has a nullptr Function''
                   (Function (tasks ! i) \<noteq> NullFunction)
         then Inl (AssertionFailed ''Task given to TaskScheduler:AddTasks has a nullptr Function'')
         else
           (case Push ti q \<lparr>TaskToExecute = tasks ! i, Counter = counter\<rparr> s of
              Inl e \<Rightarrow> Inl e
            | Inr s' \<Rightarrow> AddTasks_loop p numTasks tasks counter ti q (Suc i) s'))
      else Inr s)"
  by pat_completeness auto
termination
  by (relation "measure (\<lambda>(p, numTasks, tasks, counter, ti, q, i, s). unat numTasks - i)") auto

declare AddTasks_loop.simps [simp del]

definition AddTasks ::
  "platform \<Rightarrow> u32 \<Rightarrow> Task list \<Rightarrow> TaskPriority \<Rightarrow> nat option \<Rightarrow> TaskScheduler
     \<Rightarrow> error + TaskScheduler" where
  "AddTasks p numTasks tasks priority counter s =
     (let s1 = (case counter of None \<Rightarrow> s | Some c \<Rightarrow> Counter_Add c numTasks s) in
      (case GetCurrentThreadIndex p s1 of
         Inl e \<Rightarrow> Inl e
       | Inr ti \<Rightarrow>
           let threadIndex = (if ti = kInvalidIndex p then 0 else ti) in
           (case (if priority = High then Inr (Some HiPri)
                  else if priority = Normal then Inr (Some LoPri)
                  else if FTL_ASSERT p ''Unknown task priority'' False
                  then Inl (AssertionFailed ''Unknown task priority'')
                  else Inr None) of
              Inl e \<Rightarrow> Inl e
            | Inr None \<Rightarrow> Inr s1
            | Inr (Some queue) \<Rightarrow>
                (case AddTasks_loop p numTasks tasks counter (unat threadIndex) queue 0 s1 of
                   Inl e \<Rightarrow> Inl e
                 | Inr s2 \<Rightarrow>
                     Inr (if m_emptyQueueBehavior s2 = Sleep then emit NotifyAll s2 else s2)))))"

subsection \<open>GetCurrentFiber (lines 634-638)\<close>

definition GetCurrentFiber :: "platform \<Rightarrow> TaskScheduler \<Rightarrow> error + nat option" where
  "GetCurrentFiber p s =
     (case GetCurrentThreadIndex p s of
        Inl e \<Rightarrow> Inl e
      | Inr i \<Rightarrow>
          if unat i < length (m_tls s) then Inr (CurrentFiber (m_tls s ! unat i))
          else Inl OutOfBounds)"

subsection \<open>TaskIsReadyToExecute (lines 645-656)\<close>

text \<open>The function reads and writes the ready-fiber bundle its argument points to, so it
  works on the store of bundles. \<^verbatim>\<open>fetch_sub\<close> returns the value before the
  subtraction, and \<^verbatim>\<open>&&\<close> evaluates it only when \<^verbatim>\<open>FiberIsSwitched\<close> is true.\<close>

definition fetch_sub_SpinCount ::
  "nat \<Rightarrow> (nat \<Rightarrow> ReadyFiberBundle) \<Rightarrow> u32 \<times> (nat \<Rightarrow> ReadyFiberBundle)" where
  "fetch_sub_SpinCount b h = (SpinCount (h b), h(b := (h b)\<lparr>SpinCount := SpinCount (h b) - 1\<rparr>))"

definition TaskIsReadyToExecute ::
  "TaskBundle \<Rightarrow> (nat \<Rightarrow> ReadyFiberBundle) \<Rightarrow> bool \<times> (nat \<Rightarrow> ReadyFiberBundle)" where
  "TaskIsReadyToExecute bundle h =
     (if Function (TaskToExecute bundle) \<noteq> ReadyFiberDummyTask then (True, h)
      else
        let readyFiberBundle = ArgData (TaskToExecute bundle) in
        if FiberIsSwitched (h readyFiberBundle) then
          (case fetch_sub_SpinCount readyFiberBundle h of (old, h') \<Rightarrow> (sint old \<le> 0, h'))
        else (False, h))"

subsection \<open>GetNextHiPriTask (lines 658-735)\<close>

text \<open>The loop of lines 666-678 over the worker's own queue (bottom first). The result
  is \<^verbatim>\<open>result\<close>, \<^verbatim>\<open>*nextTask\<close>, \<^verbatim>\<open>*taskBuffer\<close>, what is left of the queue, and
  the store of bundles.\<close>

fun HiPri_pop_loop ::
  "TaskBundle list \<Rightarrow> TaskBundle \<Rightarrow> TaskBundle list \<Rightarrow> (nat \<Rightarrow> ReadyFiberBundle)
     \<Rightarrow> bool \<times> TaskBundle \<times> TaskBundle list \<times> TaskBundle list \<times> (nat \<Rightarrow> ReadyFiberBundle)" where
  "HiPri_pop_loop [] nextTask taskBuffer h = (False, nextTask, taskBuffer, [], h)"
| "HiPri_pop_loop (t # queue) nextTask taskBuffer h =
     (case TaskIsReadyToExecute t h of
        (True, h') \<Rightarrow> (True, t, taskBuffer, queue, h')
      | (False, h') \<Rightarrow> HiPri_pop_loop queue t (taskBuffer @ [t]) h')"

text \<open>The loop of lines 693-707 over another worker's queue, given top first; the extra
  boolean tells whether any \<^verbatim>\<open>Steal\<close> succeeded (line 695).\<close>

fun HiPri_steal_loop ::
  "TaskBundle list \<Rightarrow> bool \<Rightarrow> TaskBundle \<Rightarrow> TaskBundle list \<Rightarrow> (nat \<Rightarrow> ReadyFiberBundle)
     \<Rightarrow> bool \<times> bool \<times> TaskBundle \<times> TaskBundle list \<times> TaskBundle list \<times> (nat \<Rightarrow> ReadyFiberBundle)" where
  "HiPri_steal_loop [] stolen nextTask taskBuffer h = (False, stolen, nextTask, taskBuffer, [], h)"
| "HiPri_steal_loop (t # top_first) stolen nextTask taskBuffer h =
     (case TaskIsReadyToExecute t h of
        (True, h') \<Rightarrow> (True, True, t, taskBuffer, top_first, h')
      | (False, h') \<Rightarrow> HiPri_steal_loop top_first True t (taskBuffer @ [t]) h')"

text \<open>Lines 691-707 for one victim: worker \<open>cur\<close> steals from the worker
  \<^verbatim>\<open>threadIndexToStealFrom\<close> until an entry is ready or the victim's queue is empty.\<close>

definition HiPri_steal_from ::
  "u32 \<Rightarrow> u32 \<Rightarrow> TaskBundle \<Rightarrow> TaskBundle list \<Rightarrow> TaskScheduler
     \<Rightarrow> bool \<times> TaskBundle \<times> TaskBundle list \<times> TaskScheduler" where
  "HiPri_steal_from cur threadIndexToStealFrom nextTask taskBuffer s =
     (case HiPri_steal_loop (rev (HiPriTaskQueue (m_tls s ! unat threadIndexToStealFrom)))
             False nextTask taskBuffer (bundles s) of
        (found, stolen, nextTask', taskBuffer', top_first, h') \<Rightarrow>
          let s1 = s\<lparr>bundles := h',
                m_tls := (m_tls s)[unat threadIndexToStealFrom :=
                  (m_tls s ! unat threadIndexToStealFrom)\<lparr>HiPriTaskQueue := rev top_first\<rparr>]\<rparr>;
              s2 = (if stolen
                    then s1\<lparr>m_tls := (m_tls s1)[unat cur :=
                           (m_tls s1 ! unat cur)\<lparr>HiPriLastSuccessfulSteal := threadIndexToStealFrom\<rparr>]\<rparr>
                    else s1)
          in (found, nextTask', taskBuffer', s2))"

text \<open>The loop of lines 684-708 from \<open>i\<close> on: \<open>cur\<close> is \<^verbatim>\<open>currentThreadIndex\<close>,
  \<open>threadIndex\<close> the value of \<^verbatim>\<open>HiPriLastSuccessfulSteal\<close> read at line 683.\<close>

function HiPri_steal_threads ::
  "u32 \<Rightarrow> u32 \<Rightarrow> nat \<Rightarrow> TaskBundle \<Rightarrow> TaskBundle list \<Rightarrow> TaskScheduler
     \<Rightarrow> error + (bool \<times> TaskBundle \<times> TaskBundle list \<times> TaskScheduler)" where
  "HiPri_steal_threads cur threadIndex i nextTask taskBuffer s =
     (if i < unat (m_numThreads s) then
        (let threadIndexToStealFrom = (threadIndex + word_of_nat i) mod m_numThreads s in
         if threadIndexToStealFrom = cur
         then HiPri_steal_threads cur threadIndex (Suc i) nextTask taskBuffer s
         else if \<not> unat threadIndexToStealFrom < length (m_tls s) then Inl OutOfBounds
         else
           (case HiPri_steal_from cur threadIndexToStealFrom nextTask taskBuffer s of
              (found, nextTask', taskBuffer', s') \<Rightarrow>
                if found then Inr (True, nextTask', taskBuffer', s')
                else HiPri_steal_threads cur threadIndex (Suc i) nextTask' taskBuffer' s'))
      else Inr (False, nextTask, taskBuffer, s))"
  by pat_completeness auto
termination
  by (relation "measure (\<lambda>(cur, threadIndex, i, nextTask, taskBuffer, s). unat (m_numThreads s) - i)")
     (auto simp: HiPri_steal_from_def Let_def split: prod.splits if_splits)

declare HiPri_steal_threads.simps [simp del]

text \<open>The label \<^verbatim>\<open>cleanup\<close> (lines 711-734): the buffer is pushed back from its last
  element to its first.\<close>

definition HiPri_cleanup ::
  "nat \<Rightarrow> bool \<Rightarrow> TaskBundle \<Rightarrow> TaskBundle list \<Rightarrow> TaskScheduler
     \<Rightarrow> bool \<times> TaskBundle \<times> TaskBundle list \<times> TaskScheduler" where
  "HiPri_cleanup cur result nextTask taskBuffer s =
     (if taskBuffer \<noteq> [] then
        let s1 = foldl (\<lambda>s' b. push_at cur HiPri b s') s (rev taskBuffer);
            s2 = (if m_emptyQueueBehavior s1 = Sleep then emit NotifyAll s1 else s1)
        in (result, nextTask, [], s2)
      else (result, nextTask, taskBuffer, s))"

definition GetNextHiPriTask ::
  "platform \<Rightarrow> TaskBundle \<Rightarrow> TaskBundle list \<Rightarrow> TaskScheduler
     \<Rightarrow> error + (bool \<times> TaskBundle \<times> TaskBundle list \<times> TaskScheduler)" where
  "GetNextHiPriTask p nextTask taskBuffer s =
     (case GetCurrentThreadIndex p s of
        Inl e \<Rightarrow> Inl e
      | Inr currentThreadIndex \<Rightarrow>
          let cur = unat currentThreadIndex in
          if \<not> cur < length (m_tls s) then Inl OutOfBounds
          else
            (case HiPri_pop_loop (HiPriTaskQueue (m_tls s ! cur)) nextTask taskBuffer (bundles s) of
               (found, nextTask1, taskBuffer1, queue, h') \<Rightarrow>
                 let s1 = s\<lparr>bundles := h',
                       m_tls := (m_tls s)[cur := (m_tls s ! cur)\<lparr>HiPriTaskQueue := queue\<rparr>]\<rparr>
                 in
                   if found then Inr (HiPri_cleanup cur True nextTask1 taskBuffer1 s1)
                   else
                     (case HiPri_steal_threads currentThreadIndex
                             (HiPriLastSuccessfulSteal (m_tls s1 ! cur)) 0 nextTask1 taskBuffer1 s1 of
                        Inl e \<Rightarrow> Inl e
                      | Inr (result, nextTask2, taskBuffer2, s2) \<Rightarrow>
                          Inr (HiPri_cleanup cur result nextTask2 taskBuffer2 s2))))"

subsection \<open>GetNextLoPriTask (lines 737-766)\<close>

function LoPri_steal_threads ::
  "u32 \<Rightarrow> u32 \<Rightarrow> nat \<Rightarrow> TaskBundle \<Rightarrow> TaskScheduler \<Rightarrow> error + (bool \<times> TaskBundle \<times> TaskScheduler)" where
  "LoPri_steal_threads cur threadIndex i nextTask s =
     (if i < unat (m_numThreads s) then
        (let threadIndexToStealFrom = (threadIndex + word_of_nat i) mod m_numThreads s in
         if threadIndexToStealFrom = cur
         then LoPri_steal_threads cur threadIndex (Suc i) nextTask s
         else if \<not> unat threadIndexToStealFrom < length (m_tls s) then Inl OutOfBounds
         else
           (case rev (LoPriTaskQueue (m_tls s ! unat threadIndexToStealFrom)) of
              [] \<Rightarrow> LoPri_steal_threads cur threadIndex (Suc i) nextTask s
            | t # top_first \<Rightarrow>
                let s1 = s\<lparr>m_tls := (m_tls s)[unat threadIndexToStealFrom :=
                        (m_tls s ! unat threadIndexToStealFrom)\<lparr>LoPriTaskQueue := rev top_first\<rparr>]\<rparr>;
                    s2 = s1\<lparr>m_tls := (m_tls s1)[unat cur :=
                        (m_tls s1 ! unat cur)\<lparr>LoPriLastSuccessfulSteal := threadIndexToStealFrom\<rparr>]\<rparr>
                in Inr (True, t, s2)))
      else Inr (False, nextTask, s))"
  by pat_completeness auto
termination
  by (relation "measure (\<lambda>(cur, threadIndex, i, nextTask, s). unat (m_numThreads s) - i)") auto

declare LoPri_steal_threads.simps [simp del]

definition GetNextLoPriTask ::
  "platform \<Rightarrow> TaskBundle \<Rightarrow> TaskScheduler \<Rightarrow> error + (bool \<times> TaskBundle \<times> TaskScheduler)" where
  "GetNextLoPriTask p nextTask s =
     (case GetCurrentThreadIndex p s of
        Inl e \<Rightarrow> Inl e
      | Inr currentThreadIndex \<Rightarrow>
          let cur = unat currentThreadIndex in
          if \<not> cur < length (m_tls s) then Inl OutOfBounds
          else
            (case LoPriTaskQueue (m_tls s ! cur) of
               t # queue \<Rightarrow>
                 Inr (True, t, s\<lparr>m_tls := (m_tls s)[cur := (m_tls s ! cur)\<lparr>LoPriTaskQueue := queue\<rparr>]\<rparr>)
             | [] \<Rightarrow>
                 LoPri_steal_threads currentThreadIndex
                   (LoPriLastSuccessfulSteal (m_tls s ! cur)) 0 nextTask s))"

subsection \<open>Fibers and ready-fiber bundles (lines 768-786)\<close>

text \<open>\<^verbatim>\<open>SkrNew\<close> returns an address that is not in use; \<^verbatim>\<open>SkrDelete\<close> gives it back.\<close>

definition fresh_address :: "nat list \<Rightarrow> nat" where
  "fresh_address used = Suc (fold max used 0)"

definition GetNextFreeFiber :: "TaskScheduler \<Rightarrow> nat \<times> TaskScheduler" where
  "GetNextFreeFiber s =
     (let f = fresh_address (m_mainFiber s # live_fibers s)
      in (f, s\<lparr>live_fibers := f # live_fibers s\<rparr>))"

definition SetFreeFiber :: "nat option \<Rightarrow> TaskScheduler \<Rightarrow> TaskScheduler" where
  "SetFreeFiber fiber s =
     (case fiber of None \<Rightarrow> s | Some f \<Rightarrow> s\<lparr>live_fibers := removeAll f (live_fibers s)\<rparr>)"

definition CreateFiberBundle :: "TaskScheduler \<Rightarrow> nat \<times> TaskScheduler" where
  "CreateFiberBundle s =
     (let b = fresh_address (live_bundles s)
      in (b, s\<lparr>live_bundles := b # live_bundles s\<rparr>))"

definition ReleaseFiberBundle :: "nat \<Rightarrow> TaskScheduler \<Rightarrow> TaskScheduler" where
  "ReleaseFiberBundle bundle s = s\<lparr>live_bundles := removeAll bundle (live_bundles s)\<rparr>"

text \<open>A function that leaves through \<^verbatim>\<open>SwitchToFiber\<close> does not return to its caller:
  \<open>Switched from to s\<close> is the switch from fiber \<open>from\<close> to fiber \<open>to\<close> in state \<open>s\<close>.\<close>

datatype control =
    Returned (state_at_exit: TaskScheduler)
  | Switched (switched_from: nat) (switched_to: nat) (state_at_exit: TaskScheduler)

definition update_tls ::
  "nat \<Rightarrow> (ThreadLocalStorage \<Rightarrow> ThreadLocalStorage) \<Rightarrow> TaskScheduler \<Rightarrow> TaskScheduler" where
  "update_tls i f s = s\<lparr>m_tls := (m_tls s)[i := f (m_tls s ! i)]\<rparr>"

subsection \<open>CleanUpOldFiber (lines 788-855)\<close>

definition CleanUpOldFiber :: "platform \<Rightarrow> TaskScheduler \<Rightarrow> error + TaskScheduler" where
  "CleanUpOldFiber p s =
     (case GetCurrentThreadIndex p s of
        Inl e \<Rightarrow> Inl e
      | Inr i \<Rightarrow>
          if \<not> unat i < length (m_tls s) then Inl OutOfBounds
          else
            let tls = m_tls s ! unat i in
            (case OldFiberDestination tls of
               ToPool \<Rightarrow>
                 Inr (update_tls (unat i)
                        (\<lambda>tls. tls\<lparr>OldFiberDestination := FiberDestination_None, OldFiber := None\<rparr>)
                        (SetFreeFiber (OldFiber tls) s))
             | ToWaiting \<Rightarrow>
                 (case OldFiberStoredFlag tls of
                    None \<Rightarrow> Inl NullPointer
                  | Some flag \<Rightarrow>
                      Inr (update_tls (unat i)
                             (\<lambda>tls. tls\<lparr>OldFiberDestination := FiberDestination_None, OldFiber := None\<rparr>)
                             (s\<lparr>bundles := (bundles s)(flag := (bundles s flag)\<lparr>FiberIsSwitched := True\<rparr>)\<rparr>)))
             | FiberDestination_None \<Rightarrow> Inr s))"

subsection \<open>AddReadyFiber (lines 857-909)\<close>

definition AddReadyFiber :: "platform \<Rightarrow> u32 \<Rightarrow> nat \<Rightarrow> TaskScheduler \<Rightarrow> error + TaskScheduler" where
  "AddReadyFiber p pinnedThreadIndex bundle s =
     (if pinnedThreadIndex = kNoThreadPinning p then
        (case GetCurrentThreadIndex p s of
           Inl e \<Rightarrow> Inl e
         | Inr ti \<Rightarrow>
             let threadIndex = (if ti = kInvalidIndex p then 0 else ti) in
             if \<not> unat threadIndex < length (m_tls s) then Inl OutOfBounds
             else
               let task = \<lparr>Function = ReadyFiberDummyTask, ArgData = bundle\<rparr>;
                   taskBundle = \<lparr>TaskToExecute = task, Counter = None\<rparr>;
                   s1 = push_at (unat threadIndex) HiPri taskBundle s
               in Inr (if m_emptyQueueBehavior s1 = Sleep then emit NotifyOne s1 else s1))
      else
        if \<not> unat pinnedThreadIndex < length (m_tls s) then Inl OutOfBounds
        else
          let i = unat pinnedThreadIndex;
              s1 = emit (Lock (PinnedReadyFibersLock i)) s;
              s2 = update_tls i (\<lambda>tls. tls\<lparr>PinnedReadyFibers := PinnedReadyFibers tls @ [bundle]\<rparr>) s1;
              s3 = emit (Unlock (PinnedReadyFibersLock i)) s2
          in
            if m_emptyQueueBehavior s3 = Sleep then
              (case GetCurrentThreadIndex p s3 of
                 Inl e \<Rightarrow> Inl e
               | Inr ti \<Rightarrow>
                   if ti \<noteq> pinnedThreadIndex
                   then Inr (emit (Unlock ThreadSleepLock)
                              (emit NotifyAll (emit (Lock ThreadSleepLock) s3)))
                   else Inr s3)
            else Inr s3)"

subsection \<open>WaitForCounterInternal (lines 926-994)\<close>

text \<open>The spin of lines 934-936. The lock is written by the other threads, so what the
  loop reads is an input: \<open>loads k\<close> is the value the \<open>k\<close>-th load returns. The result is
  the number of loads that found the lock held; the loop that never reads \<open>0\<close> does not
  return.\<close>

partial_function (option) drain_lock :: "(nat \<Rightarrow> u32) \<Rightarrow> nat \<Rightarrow> nat option" where
  "drain_lock loads k = (if loads k > 0 then drain_lock loads (Suc k) else Some k)"

text \<open>Modelled from the spec: \<^verbatim>\<open>BaseCounter::AddFiberToWaitingList\<close> is defined in a file
  that is not part of the sources at hand. The spec has it return true without parking
  when the counter has reached the target, and install a waiter slot (bundle, target
  value, pinned thread) otherwise. Whether the target was reached is decided by the
  counter's value at that moment, which other threads change: it is the input
  \<open>already_done\<close>.\<close>

definition AddFiberToWaitingList ::
  "nat \<Rightarrow> nat \<Rightarrow> u32 \<Rightarrow> u32 \<Rightarrow> bool \<Rightarrow> TaskScheduler \<Rightarrow> bool \<times> TaskScheduler" where
  "AddFiberToWaitingList counter bundle targetValue pinnedThreadIndex already_done s =
     (if already_done then (True, s)
      else (False, s\<lparr>counter_waiters := (counter_waiters s)
              (counter := counter_waiters s counter @ [(bundle, targetValue, pinnedThreadIndex)])\<rparr>))"

definition store_bundle :: "nat \<Rightarrow> ReadyFiberBundle \<Rightarrow> TaskScheduler \<Rightarrow> TaskScheduler" where
  "store_bundle b v s = s\<lparr>bundles := (bundles s)(b := v)\<rparr>"

text \<open>\<^verbatim>\<open>WaitForCounterInternal\<close> and \<^verbatim>\<open>WaitForPredicate\<close> share three pieces of code, word
  for word. Lines 943-951 and 1002-1010 choose the worker the fiber is pinned to.\<close>

definition choose_pinnedThreadIndex ::
  "platform \<Rightarrow> bool \<Rightarrow> nat option \<Rightarrow> TaskScheduler \<Rightarrow> error + u32" where
  "choose_pinnedThreadIndex p pinToCurrentThread currentFiber s =
     (if pinToCurrentThread \<or> currentFiber = Some (m_mainFiber s)
      then GetCurrentThreadIndex p s
      else Inr (kNoThreadPinning p))"

text \<open>Lines 954-957 and 1013-1016 create the bundle and store its three fields.\<close>

definition new_ReadyFiberBundle ::
  "nat option \<Rightarrow> u32 \<Rightarrow> TaskScheduler \<Rightarrow> nat \<times> TaskScheduler" where
  "new_ReadyFiberBundle currentFiber spin s =
     (case CreateFiberBundle s of
        (readyFiberBundle, s1) \<Rightarrow>
          (readyFiberBundle,
           store_bundle readyFiberBundle
             \<lparr>Fiber = currentFiber, FiberIsSwitched = False, SpinCount = spin\<rparr> s1))"

text \<open>Lines 974-986 and 1024-1036 fill in \<^verbatim>\<open>tls\<close> (worker \<open>ti\<close>) and switch to the free
  fiber.\<close>

definition switch_to_free_fiber ::
  "nat \<Rightarrow> nat option \<Rightarrow> nat \<Rightarrow> nat \<Rightarrow> TaskScheduler \<Rightarrow> error + control" where
  "switch_to_free_fiber ti currentFiber freeFiber readyFiberBundle s =
     (let s1 = update_tls ti
            (\<lambda>tls. tls\<lparr>OldFiber := currentFiber,
               CurrentFiber := Some freeFiber,
               OldFiberDestination := ToWaiting,
               OldFiberStoredFlag := Some readyFiberBundle\<rparr>) s;
          s2 = (if has_OnFiberDetached (m_callbacks s1)
                then emit (OnFiberDetached currentFiber True) s1
                else s1)
      in
        (case currentFiber of
           None \<Rightarrow> Inl NullPointer
         | Some f \<Rightarrow> Inr (Switched f freeFiber s2)))"

definition WaitForCounterInternal ::
  "platform \<Rightarrow> nat \<Rightarrow> u32 \<Rightarrow> bool \<Rightarrow> (nat \<Rightarrow> u32) \<Rightarrow> bool \<Rightarrow> TaskScheduler
     \<Rightarrow> (error + control) option" where
  "WaitForCounterInternal p counter val pinToCurrentThread m_lock_loads already_done s =
     (if counter_value s counter = val then
        (case drain_lock m_lock_loads 0 of
           None \<Rightarrow> None
         | Some k \<Rightarrow> Some (Inr (Returned s)))
      else
        Some
          (case GetCurrentThreadIndex p s of
             Inl e \<Rightarrow> Inl e
           | Inr ti \<Rightarrow>
               if \<not> unat ti < length (m_tls s) then Inl OutOfBounds
               else
                 let currentFiber = CurrentFiber (m_tls s ! unat ti) in
                 (case choose_pinnedThreadIndex p pinToCurrentThread currentFiber s of
                    Inl e \<Rightarrow> Inl e
                  | Inr pinnedThreadIndex \<Rightarrow>
                      (case new_ReadyFiberBundle currentFiber 0 s of
                         (readyFiberBundle, s2) \<Rightarrow>
                           (case AddFiberToWaitingList counter readyFiberBundle val
                                   pinnedThreadIndex already_done s2 of
                              (True, s3) \<Rightarrow> Inr (Returned (ReleaseFiberBundle readyFiberBundle s3))
                            | (False, s3) \<Rightarrow>
                                (case GetNextFreeFiber s3 of
                                   (freeFiber, s4) \<Rightarrow>
                                     switch_to_free_fiber (unat ti) currentFiber freeFiber
                                       readyFiberBundle s4))))))"

text \<open>Lines 988-993: what the parked fiber does when a worker switches back to it.\<close>

definition attach_callback :: "platform \<Rightarrow> TaskScheduler \<Rightarrow> error + TaskScheduler" where
  "attach_callback p s =
     (if has_OnFiberAttached (m_callbacks s) then
        (case GetCurrentFiber p s of
           Inl e \<Rightarrow> Inl e
         | Inr f \<Rightarrow> Inr (emit (OnFiberAttached f) s))
      else Inr s)"

definition WaitForCounterInternal_resumed :: "platform \<Rightarrow> TaskScheduler \<Rightarrow> error + TaskScheduler" where
  "WaitForCounterInternal_resumed p s =
     (case attach_callback p s of
        Inl e \<Rightarrow> Inl e
      | Inr s1 \<Rightarrow> CleanUpOldFiber p s1)"

subsection \<open>WaitForPredicate (lines 996-1046)\<close>

text \<open>One pass of the loop, for the value \<open>pred\<close> that the predicate returns at line 999 and
  the worker \<open>ti\<close> that \<^verbatim>\<open>tls\<close> points to.\<close>

definition WaitForPredicate_iteration ::
  "platform \<Rightarrow> bool \<Rightarrow> bool \<Rightarrow> nat \<Rightarrow> TaskScheduler \<Rightarrow> error + control" where
  "WaitForPredicate_iteration p pred pinToCurrentThread ti s =
     (if pred then Inr (Returned s)
      else if \<not> ti < length (m_tls s) then Inl OutOfBounds
      else
        let currentFiber = CurrentFiber (m_tls s ! ti) in
        (case choose_pinnedThreadIndex p pinToCurrentThread currentFiber s of
           Inl e \<Rightarrow> Inl e
         | Inr pinnedThreadIndex \<Rightarrow>
             (case new_ReadyFiberBundle currentFiber 15 s of
                (readyFiberBundle, s2) \<Rightarrow>
                  (case GetNextFreeFiber s2 of
                     (freeFiber, s3) \<Rightarrow>
                       (case AddReadyFiber p pinnedThreadIndex readyFiberBundle s3 of
                          Inl e \<Rightarrow> Inl e
                        | Inr s4 \<Rightarrow>
                            switch_to_free_fiber ti currentFiber freeFiber readyFiberBundle s4)))))"

text \<open>Line 998 only takes the address \<^verbatim>\<open>&m_tls[GetCurrentThreadIndex()]\<close>; the first read
  through it is \<^verbatim>\<open>tls->CurrentFiber\<close> at line 1001, inside the loop, which is where
  \<open>WaitForPredicate_iteration\<close> tests the index.\<close>

definition WaitForPredicate :: "platform \<Rightarrow> bool \<Rightarrow> bool \<Rightarrow> TaskScheduler \<Rightarrow> error + control" where
  "WaitForPredicate p pred pinToCurrentThread s =
     (case GetCurrentThreadIndex p s of
        Inl e \<Rightarrow> Inl e
      | Inr i \<Rightarrow> WaitForPredicate_iteration p pred pinToCurrentThread (unat i) s)"

text \<open>Lines 1038-1045 and the next pass of the loop: what the parked fiber does when a
  worker switches back to it.\<close>

definition WaitForPredicate_resumed :: "platform \<Rightarrow> bool \<Rightarrow> bool \<Rightarrow> TaskScheduler \<Rightarrow> error + control" where
  "WaitForPredicate_resumed p pred pinToCurrentThread s =
     (case attach_callback p s of
        Inl e \<Rightarrow> Inl e
      | Inr s1 \<Rightarrow>
          (case CleanUpOldFiber p s1 of
             Inl e \<Rightarrow> Inl e
           | Inr s2 \<Rightarrow>
               (case GetCurrentThreadIndex p s2 of
                  Inl e \<Rightarrow> Inl e
                | Inr i \<Rightarrow> WaitForPredicate_iteration p pred pinToCurrentThread (unat i) s2)))"

subsection \<open>FiberStartFunc: the dispatch loop (lines 138-343)\<close>

text \<open>The scan of lines 172-189 over the pinned list, from the iterator on: \<open>visited\<close> are
  the entries the loop has passed. The result is the entry the loop stopped at, if any,
  the list without it, and the store of bundles.\<close>

fun PinnedReadyFibers_scan ::
  "nat list \<Rightarrow> nat list \<Rightarrow> (nat \<Rightarrow> ReadyFiberBundle)
     \<Rightarrow> nat option \<times> nat list \<times> (nat \<Rightarrow> ReadyFiberBundle)" where
  "PinnedReadyFibers_scan visited [] h = (None, visited, h)"
| "PinnedReadyFibers_scan visited (bundle # rest) h =
     (if \<not> FiberIsSwitched (h bundle) then
        (case fetch_sub_SpinCount bundle h of
           (old, h') \<Rightarrow>
             if sint old \<le> 0 then PinnedReadyFibers_scan (visited @ [bundle]) rest h'
             else (Some bundle, visited @ rest, h'))
      else (Some bundle, visited @ rest, h))"

text \<open>Lines 168-190: \<^verbatim>\<open>readyWaitingFibers\<close>, \<^verbatim>\<open>foundTask\<close>, \<^verbatim>\<open>waitingFiber\<close> and the
  state when the lock guard is released.\<close>

definition CheckPinnedReadyFibers ::
  "nat \<Rightarrow> TaskScheduler \<Rightarrow> bool \<times> bool \<times> nat option \<times> TaskScheduler" where
  "CheckPinnedReadyFibers ti s =
     (let s0 = emit (Lock (PinnedReadyFibersLock ti)) s;
          pinned = PinnedReadyFibers (m_tls s0 ! ti)
      in
        (case PinnedReadyFibers_scan [] pinned (bundles s0) of
           (None, pinned', h') \<Rightarrow>
             (pinned \<noteq> [], False, None,
              emit (Unlock (PinnedReadyFibersLock ti)) (s0\<lparr>bundles := h'\<rparr>))
         | (Some bundle, pinned', h') \<Rightarrow>
             let waitingFiber = Fiber (h' bundle);
                 s1 = ReleaseFiberBundle bundle (s0\<lparr>bundles := h'\<rparr>);
                 s2 = update_tls ti (\<lambda>tls. tls\<lparr>PinnedReadyFibers := pinned'\<rparr>) s1
             in (True, True, waitingFiber, emit (Unlock (PinnedReadyFibersLock ti)) s2)))"

text \<open>Lines 275-321: the worker found neither a task nor a pinned entry.\<close>

definition EmptyQueue :: "nat \<Rightarrow> TaskScheduler \<Rightarrow> TaskScheduler" where
  "EmptyQueue ti s =
     (case m_emptyQueueBehavior s of
        Yield \<Rightarrow>
          let s1 = update_tls ti
                (\<lambda>tls. tls\<lparr>FailedQueuePopAttempts := FailedQueuePopAttempts tls + 1\<rparr>) s
          in
            if FailedQueuePopAttempts (m_tls s1 ! ti) \<ge> kFailedPopAttemptsHeuristic
            then update_tls ti (\<lambda>tls. tls\<lparr>FailedQueuePopAttempts := 0\<rparr>) (emit YieldThread s1)
            else s1
      | Sleep \<Rightarrow>
          let s1 = update_tls ti
                (\<lambda>tls. tls\<lparr>FailedQueuePopAttempts := FailedQueuePopAttempts tls + 1\<rparr>) s
          in
            if FailedQueuePopAttempts (m_tls s1 ! ti) \<ge> kFailedPopAttemptsHeuristic
            then
              let s2 = emit (Lock ThreadSleepLock) s1;
                  s3 = emit (Lock (PinnedReadyFibersLock ti)) s2
              in
                if PinnedReadyFibers (m_tls s3 ! ti) = []
                then
                  let s4 = emit (Unlock (PinnedReadyFibersLock ti)) s3;
                      s5 = emit CVWait s4;
                      s6 = update_tls ti (\<lambda>tls. tls\<lparr>FailedQueuePopAttempts := 0\<rparr>) s5
                  in emit (Unlock ThreadSleepLock) s6
                else
                  let s4 = update_tls ti (\<lambda>tls. tls\<lparr>FailedQueuePopAttempts := 0\<rparr>) s3;
                      s5 = emit (Unlock (PinnedReadyFibersLock ti)) s4
                  in emit (Unlock ThreadSleepLock) s5
            else s1
      | Spin \<Rightarrow> s)"

text \<open>One pass of the loop of lines 161-322, up to the point where control leaves the
  loop body: the loop ends, the fiber switches to a waiting fiber, the task function is
  called, or the pass ends and the loop goes on.\<close>

datatype iteration =
    LoopExit (state_after: TaskScheduler)
  | SwitchedToWaitingFiber (old_fiber: nat) (waiting_fiber: nat) (state_after: TaskScheduler)
  | InvokesTask (invoked: TaskBundle) (state_after: TaskScheduler)
  | LoopContinues (state_after: TaskScheduler)

definition empty_TaskBundle :: TaskBundle where
  "empty_TaskBundle = \<lparr>TaskToExecute = \<lparr>Function = NullFunction, ArgData = 0\<rparr>, Counter = None\<rparr>"

text \<open>Lines 163-212. \<^verbatim>\<open>taskBuffer\<close> is empty at every call of \<^verbatim>\<open>GetNextHiPriTask\<close>: the
  function empties it before it returns.\<close>

definition find_work ::
  "platform \<Rightarrow> nat \<Rightarrow> TaskScheduler
     \<Rightarrow> error + (bool \<times> bool \<times> nat option \<times> TaskBundle \<times> TaskScheduler)" where
  "find_work p ti s =
     (case CheckPinnedReadyFibers ti s of
        (readyWaitingFibers, foundTask0, waitingFiber0, s1) \<Rightarrow>
          (case (if \<not> foundTask0 then
                   (case GetNextHiPriTask p empty_TaskBundle [] s1 of
                      Inl e \<Rightarrow> Inl e
                    | Inr (found, nextTask, taskBuffer, s2) \<Rightarrow>
                        if found \<and> Function (TaskToExecute nextTask) = ReadyFiberDummyTask
                        then
                          let readyFiberBundle = ArgData (TaskToExecute nextTask)
                          in Inr (found, Fiber (bundles s2 readyFiberBundle), nextTask,
                                  ReleaseFiberBundle readyFiberBundle s2)
                        else Inr (found, waitingFiber0, nextTask, s2))
                 else Inr (foundTask0, waitingFiber0, empty_TaskBundle, s1)) of
             Inl e \<Rightarrow> Inl e
           | Inr (foundTask1, waitingFiber, nextTask1, s2) \<Rightarrow>
               if \<not> foundTask1 then
                 (case GetNextLoPriTask p nextTask1 s2 of
                    Inl e \<Rightarrow> Inl e
                  | Inr (found, nextTask, s3) \<Rightarrow>
                      Inr (readyWaitingFibers, found, waitingFiber, nextTask, s3))
               else Inr (readyWaitingFibers, foundTask1, waitingFiber, nextTask1, s2)))"

definition DispatchIteration :: "platform \<Rightarrow> nat \<Rightarrow> TaskScheduler \<Rightarrow> error + iteration" where
  "DispatchIteration p ti s =
     (if m_quit s then Inr (LoopExit s)
      else if \<not> ti < length (m_tls s) then Inl OutOfBounds
      else
        (case find_work p ti s of
           Inl e \<Rightarrow> Inl e
         | Inr (readyWaitingFibers, foundTask, waitingFiber, nextTask, s1) \<Rightarrow>
             if waitingFiber \<noteq> None then
               let s2 = update_tls ti
                     (\<lambda>tls. tls\<lparr>OldFiber := CurrentFiber tls, CurrentFiber := waitingFiber,
                        OldFiberDestination := ToPool\<rparr>) s1;
                   s3 = (if has_OnFiberDetached (m_callbacks s2)
                         then emit (OnFiberDetached (OldFiber (m_tls s2 ! ti)) False) s2
                         else s2)
               in
                 (case (OldFiber (m_tls s3 ! ti), waitingFiber) of
                    (Some old, Some w) \<Rightarrow> Inr (SwitchedToWaitingFiber old w s3)
                  | _ \<Rightarrow> Inl NullPointer)
             else if foundTask then
               Inr (InvokesTask nextTask
                      (update_tls ti (\<lambda>tls. tls\<lparr>FailedQueuePopAttempts := 0\<rparr>) s1))
             else if \<not> readyWaitingFibers then Inr (LoopContinues (EmptyQueue ti s1))
             else Inr (LoopContinues s1)))"

text \<open>Lines 238-249: what the dispatching fiber does if a worker switches back to it. The
  result is the worker it then runs on.\<close>

definition DispatchIteration_resumed :: "platform \<Rightarrow> TaskScheduler \<Rightarrow> error + (nat \<times> TaskScheduler)" where
  "DispatchIteration_resumed p s =
     (case attach_callback p s of
        Inl e \<Rightarrow> Inl e
      | Inr s1 \<Rightarrow>
          (case CleanUpOldFiber p s1 of
             Inl e \<Rightarrow> Inl e
           | Inr s2 \<Rightarrow>
               (case GetCurrentThreadIndex p s2 of
                  Inl e \<Rightarrow> Inl e
                | Inr i \<Rightarrow>
                    if \<not> unat i < length (m_tls s2) then Inl OutOfBounds
                    else Inr (unat i,
                      update_tls (unat i) (\<lambda>tls. tls\<lparr>FailedQueuePopAttempts := 0\<rparr>) s2))))"

text \<open>Lines 258-271: the task function has returned. \<^verbatim>\<open>TaskCounter::Decrement\<close> is defined
  in a file that is not part of the sources at hand; it is the parameter \<open>Decrement\<close>.
  The result is the worker the fiber now runs on; line 271 only takes the address of its
  \<^verbatim>\<open>m_tls\<close> entry, which the next pass of the loop reads.\<close>

definition TaskReturned ::
  "platform \<Rightarrow> (nat \<Rightarrow> TaskScheduler \<Rightarrow> error + TaskScheduler) \<Rightarrow> TaskBundle \<Rightarrow> TaskScheduler
     \<Rightarrow> error + (nat \<times> TaskScheduler)" where
  "TaskReturned p Decrement nextTask s =
     (case (case Counter nextTask of None \<Rightarrow> Inr s | Some c \<Rightarrow> Decrement c s) of
        Inl e \<Rightarrow> Inl e
      | Inr s1 \<Rightarrow>
          (case GetCurrentThreadIndex p s1 of
             Inl e \<Rightarrow> Inl e
           | Inr i \<Rightarrow> Inr (unat i, s1)))"

text \<open>Lines 140-156: a fiber from \<^verbatim>\<open>GetNextFreeFiber\<close> starts here when it is first
  switched to. The result is the worker it runs on.\<close>

definition FiberStartFunc_entry :: "platform \<Rightarrow> TaskScheduler \<Rightarrow> error + (nat \<times> TaskScheduler)" where
  "FiberStartFunc_entry p s =
     (case GetCurrentThreadIndex p s of
        Inl e \<Rightarrow> Inl e
      | Inr threadIndex \<Rightarrow>
          (case attach_callback p s of
             Inl e \<Rightarrow> Inl e
           | Inr s1 \<Rightarrow>
               (case CleanUpOldFiber p s1 of
                  Inl e \<Rightarrow> Inl e
                | Inr s2 \<Rightarrow> Inr (unat threadIndex, s2))))"

text \<open>The bundle \<^verbatim>\<open>{ task, counter }\<close> of lines 538 and 588.\<close>

definition mk_bundle :: "nat option \<Rightarrow> Task \<Rightarrow> TaskBundle" where
  "mk_bundle counter task = \<lparr>TaskToExecute = task, Counter = counter\<rparr>"

subsection \<open>Concrete states\<close>

definition ex_callbacks :: EventCallbacks where
  "ex_callbacks = \<lparr>has_OnThreadsCreated = False, has_OnFibersCreated = False,
     has_OnFiberAttached = False, has_OnFiberDetached = False\<rparr>"

definition ex_bundle :: ReadyFiberBundle where
  "ex_bundle = \<lparr>Fiber = None, FiberIsSwitched = False, SpinCount = 0\<rparr>"

definition ex_fresh :: TaskScheduler where
  "ex_fresh = \<lparr>m_numThreads = 0, m_threads = [], m_tls = [], m_mainFiber = 1,
     m_initialized = False, m_quit = False, m_emptyQueueBehavior = Spin,
     m_callbacks = ex_callbacks, bundles = (\<lambda>_. ex_bundle), live_bundles = [],
     live_fibers = [1], counter_value = (\<lambda>_. 0), counter_waiters = (\<lambda>_. []),
     events = []\<rparr>"

definition ex_platform :: platform where
  "ex_platform = \<lparr>self = 100, kInvalidIndex = - 1, kNoThreadPinning = - 1,
     asserts_enabled = False, GetNumHardwareThreads = 4,
     CreateThread = (\<lambda>i. Some (100 + i))\<rparr>"

definition ex_options :: TaskSchedulerInitOptions where
  "ex_options = \<lparr>ThreadPoolSize = 2, SetAffinity = False, Behavior = Sleep,
     Callbacks = ex_callbacks\<rparr>"


definition ex_running :: TaskScheduler where
  "ex_running = ex_fresh\<lparr>m_numThreads := 2, m_threads := [100, 101],
     m_tls := [default_tls\<lparr>CurrentFiber := Some 1\<rparr>, default_tls\<lparr>CurrentFiber := Some 2\<rparr>],
     m_initialized := True, m_emptyQueueBehavior := Sleep, live_fibers := [1, 2]\<rparr>"

definition ex_task :: Task where
  "ex_task = \<lparr>Function = UserFunction 1, ArgData = 0\<rparr>"

definition null_task :: Task where
  "null_task = \<lparr>Function = NullFunction, ArgData = 0\<rparr>"

text \<open>Worker 0 of \<open>ex_running\<close> with one entry in its pinned list: the bundle at address
  \<open>1\<close>, of fiber \<open>3\<close>, whose owner has not switched away yet.\<close>

definition ex_pinned :: TaskScheduler where
  "ex_pinned = ex_running\<lparr>
     m_tls := [default_tls\<lparr>CurrentFiber := Some 4, PinnedReadyFibers := [1]\<rparr>,
               default_tls\<lparr>CurrentFiber := Some 2\<rparr>],
     bundles := (\<lambda>_. ex_bundle)(1 := \<lparr>Fiber = Some 3, FiberIsSwitched = False, SpinCount = 0\<rparr>),
     live_bundles := [1], live_fibers := [1, 2, 3, 4]\<rparr>"

text \<open>\<open>ex_running\<close> with every counter one below zero (\<^verbatim>\<open>0xFFFFFFFF\<close>).\<close>

definition ex_wrapped :: TaskScheduler where
  "ex_wrapped = ex_running\<lparr>counter_value := (\<lambda>_. - 1)\<rparr>"

definition dummy_task :: "nat \<Rightarrow> TaskBundle" where
  "dummy_task b = \<lparr>TaskToExecute = \<lparr>Function = ReadyFiberDummyTask, ArgData = b\<rparr>, Counter = None\<rparr>"

text \<open>A lock that two loads find held and the third finds free, and \<open>ex_running\<close> with
  counter \<open>5\<close> at \<open>2\<close>.\<close>

definition ex_loads :: "nat \<Rightarrow> u32" where
  "ex_loads k = (if k < 2 then 1 else 0)"

definition ex_counting :: TaskScheduler where
  "ex_counting = ex_running\<lparr>counter_value := (\<lambda>_. 0)(5 := 2)\<rparr>"

text \<open>What holds of an entry for which \<open>TaskIsReadyToExecute\<close> has just returned true, in
  the store the call leaves: it is a real task, or the flag of its bundle is set and the
  spin count was at most \<open>0\<close> before the call took one off.\<close>

definition passed_test :: "TaskBundle \<Rightarrow> (nat \<Rightarrow> ReadyFiberBundle) \<Rightarrow> bool" where
  "passed_test t h \<longleftrightarrow>
     Function (TaskToExecute t) \<noteq> ReadyFiberDummyTask \<or>
     (FiberIsSwitched (h (ArgData (TaskToExecute t))) \<and>
      sint (SpinCount (h (ArgData (TaskToExecute t))) + 1) \<le> 0)"

text \<open>\<open>ex_running\<close> after fiber \<open>3\<close> has parked and was made ready without pinning: its
  dummy task is in the hi-priority queue of worker 0, and its owner has switched away.\<close>

definition ex_ready :: TaskScheduler where
  "ex_ready = ex_running\<lparr>
     m_tls := [default_tls\<lparr>CurrentFiber := Some 1, HiPriTaskQueue := [dummy_task 1]\<rparr>,
               default_tls\<lparr>CurrentFiber := Some 2\<rparr>],
     bundles := (\<lambda>_. ex_bundle)(1 := \<lparr>Fiber = Some 3, FiberIsSwitched = True, SpinCount = 0\<rparr>),
     live_bundles := [1], live_fibers := [1, 2, 3]\<rparr>"

text \<open>The store after the scan of lines 172-189 has passed the entries \<open>skipped\<close>: the
  \<^verbatim>\<open>fetch_sub\<close> of line 177 has taken one off the spin count of each.\<close>

definition skip_entries :: "nat list \<Rightarrow> (nat \<Rightarrow> ReadyFiberBundle) \<Rightarrow> (nat \<Rightarrow> ReadyFiberBundle)" where
  "skip_entries skipped h = fold (\<lambda>b h'. snd (fetch_sub_SpinCount b h')) skipped h"


text \<open>The events a step from \<open>s\<close> to \<open>s'\<close> has added to the log.\<close>

definition new_events :: "TaskScheduler \<Rightarrow> TaskScheduler \<Rightarrow> event list" where
  "new_events s s' = drop (length (events s)) (events s')"

text \<open>The second worker thread of \<open>ex_platform\<close>.\<close>

definition worker1 :: platform where
  "worker1 = ex_platform\<lparr>self := 101\<rparr>"

text \<open>Worker 1 has failed to find work 24 times since its count was last reset, and fiber
  \<open>3\<close>, which had parked pinned to it and whose owner has switched away, has just been put
  into its pinned list.\<close>

definition ex_tired :: TaskScheduler where
  "ex_tired = ex_running\<lparr>
     m_tls := [default_tls\<lparr>CurrentFiber := Some 1\<rparr>,
               default_tls\<lparr>CurrentFiber := Some 2, FailedQueuePopAttempts := 24,
                 PinnedReadyFibers := [1]\<rparr>],
     bundles := (\<lambda>_. ex_bundle)(1 := \<lparr>Fiber = Some 3, FiberIsSwitched = True, SpinCount = 0\<rparr>),
     live_bundles := [1], live_fibers := [1, 2, 3]\<rparr>"

text \<open>What follows from \<open>ex_tired\<close>: the pass of worker 1 that switches to fiber \<open>3\<close>;
  fiber \<open>3\<close> back in \<^verbatim>\<open>WaitForCounterInternal\<close> (lines 988-993); and, once its task has
  returned, the next pass of the loop.\<close>

definition ex_switched :: TaskScheduler where
  "ex_switched = state_after (projr (DispatchIteration worker1 1 ex_tired))"

definition ex_resumed :: TaskScheduler where
  "ex_resumed = projr (WaitForCounterInternal_resumed worker1 ex_switched)"

definition ex_blocked :: TaskScheduler where
  "ex_blocked = state_after (projr (DispatchIteration worker1 1 ex_resumed))"

text \<open>A parked fiber is listed when the dummy task of its bundle is in a task queue, or
  its bundle is in a pinned list, of some worker.\<close>

definition is_ready_fiber_task :: "nat \<Rightarrow> TaskBundle \<Rightarrow> bool" where
  "is_ready_fiber_task b t \<longleftrightarrow>
     Function (TaskToExecute t) = ReadyFiberDummyTask \<and> ArgData (TaskToExecute t) = b"

definition listed_in :: "nat \<Rightarrow> ThreadLocalStorage \<Rightarrow> bool" where
  "listed_in b tls \<longleftrightarrow>
     list_ex (is_ready_fiber_task b) (HiPriTaskQueue tls) \<or>
     list_ex (is_ready_fiber_task b) (LoPriTaskQueue tls) \<or>
     b \<in> set (PinnedReadyFibers tls)"

definition listed :: "nat \<Rightarrow> TaskScheduler \<Rightarrow> bool" where
  "listed b s \<longleftrightarrow> list_ex (listed_in b) (m_tls s)"

section \<open>Verified properties\<close>

subsection \<open>Init\<close>

lemma create_workers_inv:
  "create_workers p opts i s = Inr (r, s') \<Longrightarrow>
     m_initialized s' = m_initialized s \<and> m_callbacks s' = m_callbacks s \<and> m_numThreads s' = m_numThreads s"
proof (induction p opts i s rule: create_workers.induct)
  case (1 p opts i s)
  show ?case
  proof (cases "i < unat (m_numThreads s)")
    case False
    with "1.prems" show ?thesis by (simp add: create_workers.simps [of p opts i s])
  next
    case True
    note lt = this
    from "1.prems" lt have a: "\<not> (SetAffinity opts \<and> GetNumHardwareThreads p = 0)" and b: "i < length (m_threads s)"
      by (auto simp: create_workers.simps [of p opts i s] split: if_splits)
    show ?thesis
    proof (cases "CreateThread p i")
      case None
      with "1.prems" lt a b show ?thesis by (simp add: create_workers.simps [of p opts i s])
    next
      case (Some h)
      with "1.prems" lt a b "1.IH" [OF lt _ _ Some] show ?thesis
        by (auto simp add: create_workers.simps [of p opts i s] emit_def)
    qed
  qed
qed

lemma create_workers_fail:
  "\<exists>j. i \<le> j \<and> j < unat (m_numThreads s) \<and> CreateThread p j = None \<Longrightarrow>
   \<not> (SetAffinity opts \<and> GetNumHardwareThreads p = 0) \<Longrightarrow>
   length (m_threads s) = unat (m_numThreads s) \<Longrightarrow>
   \<exists>s'. create_workers p opts i s = Inr (Some kInitErrorFailedToCreateWorkerThread, s')"
proof (induction p opts i s rule: create_workers.induct)
  case (1 p opts i s)
  from "1.prems"(1) obtain j where j: "i \<le> j" "j < unat (m_numThreads s)" "CreateThread p j = None"
    by blast
  then have lt: "i < unat (m_numThreads s)" by simp
  with "1.prems" have b: "i < length (m_threads s)" by simp
  show ?case
  proof (cases "CreateThread p i")
    case None
    with lt b "1.prems"(2) show ?thesis by (simp add: create_workers.simps [of p opts i s])
  next
    case (Some h)
    with j have "i \<noteq> j" by auto
    with j have "\<exists>j. Suc i \<le> j \<and> j < unat (m_numThreads s) \<and> CreateThread p j = None"
      by (intro exI [of _ j]) simp
    with "1.IH" [OF lt _ _ Some] "1.prems" lt b Some show ?thesis
      by (simp add: create_workers.simps [of p opts i s] emit_def)
  qed
qed

lemma create_workers_ok:
  "\<forall>j. i \<le> j \<and> j < unat (m_numThreads s) \<longrightarrow> CreateThread p j \<noteq> None \<Longrightarrow>
   \<not> (SetAffinity opts \<and> GetNumHardwareThreads p = 0) \<Longrightarrow>
   length (m_threads s) = unat (m_numThreads s) \<Longrightarrow>
   \<exists>s'. create_workers p opts i s = Inr (None, s')"
proof (induction p opts i s rule: create_workers.induct)
  case (1 p opts i s)
  show ?case
  proof (cases "i < unat (m_numThreads s)")
    case False
    then show ?thesis by (simp add: create_workers.simps [of p opts i s])
  next
    case True
    note lt = this
    with "1.prems" have b: "i < length (m_threads s)" by simp
    from "1.prems"(1) lt obtain h where h: "CreateThread p i = Some h" by auto
    from "1.prems"(1) have "\<forall>j. Suc i \<le> j \<and> j < unat (m_numThreads s) \<longrightarrow> CreateThread p j \<noteq> None"
      by auto
    with "1.IH" [OF lt _ _ h] "1.prems" lt b h show ?thesis
      by (simp add: create_workers.simps [of p opts i s] emit_def)
  qed
qed

text \<open>
  C7. \<^verbatim>\<open>Init\<close> returns \<open>-30\<close> and leaves the scheduler as it was when the scheduler
  is already initialized. On a scheduler that is not initialized (and a platform that
  reports at least one hardware thread) it returns \<open>-60\<close>, with \<^verbatim>\<open>m_initialized\<close> still
  false, when \<^verbatim>\<open>CreateThread\<close> fails for some worker index \<open>1 \<le> i < m_numThreads\<close>, and
  it returns \<open>0\<close>, with \<^verbatim>\<open>m_initialized\<close> set, when every worker thread is created.
\<close>

theorem Init_exit_codes:
  "(m_initialized s \<longrightarrow> Init p opts s = Inr (- 30, s)) \<and>
   (\<not> m_initialized s \<and> GetNumHardwareThreads p \<noteq> 0 \<longrightarrow>
      (let n = unat (if ThreadPoolSize opts = 0 then GetNumHardwareThreads p else ThreadPoolSize opts)
       in ((\<exists>i. 1 \<le> i \<and> i < n \<and> CreateThread p i = None) \<longrightarrow>
             (\<exists>s'. Init p opts s = Inr (- 60, s') \<and> \<not> m_initialized s')) \<and>
          ((\<forall>i. 1 \<le> i \<and> i < n \<longrightarrow> CreateThread p i \<noteq> None) \<longrightarrow>
             (\<exists>s'. Init p opts s = Inr (0, s') \<and> m_initialized s'))))"
proof (intro conjI impI)
  assume "m_initialized s"
  then show "Init p opts s = Inr (- 30, s)"
    by (simp add: Init_def kInitErrorDoubleCall_def)
next
  assume a: "\<not> m_initialized s \<and> GetNumHardwareThreads p \<noteq> 0"
  define n where "n = (if ThreadPoolSize opts = 0 then GetNumHardwareThreads p else ThreadPoolSize opts)"
  from a have n0: "0 < unat n"
    by (auto simp: n_def unat_gt_0)
  define s9 where "s9 = (let s1 = s\<lparr>m_callbacks := Callbacks opts\<rparr>;
            s2 = s1\<lparr>m_emptyQueueBehavior := Behavior opts\<rparr>;
            s3 = s2\<lparr>m_numThreads := n\<rparr>;
            s4 = s3\<lparr>m_threads := replicate (unat (m_numThreads s3)) 0\<rparr>;
            s5 = s4\<lparr>m_tls := replicate (unat (m_numThreads s4)) default_tls\<rparr>;
            s6 = (if has_OnThreadsCreated (m_callbacks s5)
                  then emit (OnThreadsCreated (m_numThreads s5)) s5 else s5);
            s7 = (if has_OnFibersCreated (m_callbacks s6)
                  then emit (OnFibersCreated 1) s6 else s6);
            s8 = s7\<lparr>m_threads := (m_threads s7)[0 := self p]\<rparr>
         in s8\<lparr>m_tls := (m_tls s8)[0 := (m_tls s8 ! 0)\<lparr>CurrentFiber := Some (m_mainFiber s8)\<rparr>]\<rparr>)"
  have s9: "m_numThreads s9 = n" "length (m_threads s9) = unat n" "\<not> m_initialized s9"
    using a by (simp_all add: s9_def Let_def emit_def)
  have Init_eq: "Init p opts s =
      (case create_workers p opts 1 s9 of
                 Inl e \<Rightarrow> Inl e
               | Inr (Some code, s10) \<Rightarrow> Inr (code, s10)
               | Inr (None, s10) \<Rightarrow>
                   let s11 = (if has_OnFiberAttached (m_callbacks s10)
                              then emit (OnFiberAttached None) s10 else s10)
                   in Inr (0, s11\<lparr>m_initialized := True\<rparr>))"
    using a by (simp add: Init_def s9_def n_def Let_def emit_def unat_eq_0 del: create_workers.simps)
  have noz: "\<not> (SetAffinity opts \<and> GetNumHardwareThreads p = 0)" using a by simp
  show "let n = unat (if ThreadPoolSize opts = 0 then GetNumHardwareThreads p else ThreadPoolSize opts)
       in ((\<exists>i. 1 \<le> i \<and> i < n \<and> CreateThread p i = None) \<longrightarrow>
             (\<exists>s'. Init p opts s = Inr (- 60, s') \<and> \<not> m_initialized s')) \<and>
          ((\<forall>i. 1 \<le> i \<and> i < n \<longrightarrow> CreateThread p i \<noteq> None) \<longrightarrow>
             (\<exists>s'. Init p opts s = Inr (0, s') \<and> m_initialized s'))"
    unfolding Let_def n_def [symmetric]
  proof (intro conjI impI)
    assume "\<exists>i. 1 \<le> i \<and> i < unat n \<and> CreateThread p i = None"
    then have "\<exists>j. 1 \<le> j \<and> j < unat (m_numThreads s9) \<and> CreateThread p j = None"
      using s9 by simp
    from create_workers_fail [OF this noz] s9
    obtain s' where s': "create_workers p opts 1 s9 = Inr (Some kInitErrorFailedToCreateWorkerThread, s')"
      by auto
    from create_workers_inv [OF s'] s9 have "\<not> m_initialized s'" by simp
    with s' show "\<exists>s'. Init p opts s = Inr (- 60, s') \<and> \<not> m_initialized s'"
      by (simp add: Init_eq kInitErrorFailedToCreateWorkerThread_def)
  next
    assume "\<forall>i. 1 \<le> i \<and> i < unat n \<longrightarrow> CreateThread p i \<noteq> None"
    then have "\<forall>j. 1 \<le> j \<and> j < unat (m_numThreads s9) \<longrightarrow> CreateThread p j \<noteq> None"
      using s9 by simp
    from create_workers_ok [OF this noz] s9
    obtain s' where s': "create_workers p opts 1 s9 = Inr (None, s')"
      by auto
    then show "\<exists>s'. Init p opts s = Inr (0, s') \<and> m_initialized s'"
      by (simp add: Init_eq Let_def emit_def)
  qed
qed

theorem Init_exit_codes_witness:
  "m_initialized (ex_fresh\<lparr>m_initialized := True\<rparr>) \<and>
   Init ex_platform ex_options (ex_fresh\<lparr>m_initialized := True\<rparr>)
     = Inr (- 30, ex_fresh\<lparr>m_initialized := True\<rparr>) \<and>
   \<not> m_initialized ex_fresh \<and> GetNumHardwareThreads ex_platform \<noteq> 0 \<and>
   CreateThread ex_platform 1 \<noteq> None \<and>
   (\<exists>s'. Init ex_platform ex_options ex_fresh = Inr (0, s') \<and> m_initialized s') \<and>
   CreateThread (ex_platform\<lparr>CreateThread := (\<lambda>i. None)\<rparr>) 1 = None \<and>
   (\<exists>s'. Init (ex_platform\<lparr>CreateThread := (\<lambda>i. None)\<rparr>) ex_options ex_fresh = Inr (- 60, s')
      \<and> \<not> m_initialized s')"
proof -
  have e: "\<exists>i\<ge>Suc 0. i < (2::nat)"
    by (rule exI [of _ 1]) simp
  show ?thesis
    using Init_exit_codes [of "ex_fresh\<lparr>m_initialized := True\<rparr>" ex_platform ex_options]
      Init_exit_codes [of ex_fresh ex_platform ex_options]
      Init_exit_codes [of ex_fresh "ex_platform\<lparr>CreateThread := (\<lambda>i. None)\<rparr>" ex_options]
      e
    by (simp add: ex_fresh_def ex_platform_def ex_options_def Let_def)
qed


subsection \<open>The index of the calling thread\<close>

lemma GetCurrentThreadIndex_from_cong:
  "m_threads s' = m_threads s \<Longrightarrow> m_numThreads s' = m_numThreads s \<Longrightarrow>
   GetCurrentThreadIndex_from p s' i = GetCurrentThreadIndex_from p s i"
proof (induction "unat (m_numThreads s) - i" arbitrary: i)
  case 0
  then show ?case
    by (simp add: GetCurrentThreadIndex_from.simps [of p s' i] GetCurrentThreadIndex_from.simps [of p s i])
next
  case (Suc k)
  from Suc.hyps(2) have "k = unat (m_numThreads s) - Suc i" by simp
  from Suc.hyps(1) [OF this Suc.prems] Suc.prems show ?case
    by (simp add: GetCurrentThreadIndex_from.simps [of p s' i] GetCurrentThreadIndex_from.simps [of p s i])
qed

lemma GetCurrentThreadIndex_cong:
  "m_threads s' = m_threads s \<Longrightarrow> m_numThreads s' = m_numThreads s \<Longrightarrow>
   GetCurrentThreadIndex p s' = GetCurrentThreadIndex p s"
  unfolding GetCurrentThreadIndex_def by (rule GetCurrentThreadIndex_from_cong)

lemma GetCurrentThreadIndex_from_found:
  "length (m_threads s) = unat (m_numThreads s) \<Longrightarrow> i \<le> j \<Longrightarrow> j < unat (m_numThreads s) \<Longrightarrow>
   m_threads s ! j = self p \<Longrightarrow>
   \<exists>k. i \<le> k \<and> k \<le> j \<and> m_threads s ! k = self p \<and>
       GetCurrentThreadIndex_from p s i = Inr (word_of_nat k)"
proof (induction p s i rule: GetCurrentThreadIndex_from.induct)
  case (1 p s i)
  from "1.prems" have lt: "i < unat (m_numThreads s)" "i < length (m_threads s)" by simp_all
  show ?case
  proof (cases "m_threads s ! i = self p")
    case True
    with lt "1.prems" show ?thesis
      by (intro exI [of _ i]) (simp add: GetCurrentThreadIndex_from.simps [of p s i])
  next
    case False
    with "1.prems" have "i \<noteq> j" by auto
    with "1.prems" have "Suc i \<le> j" by simp
    from "1.IH" [OF lt False "1.prems"(1) this "1.prems"(3,4)]
    obtain k where "Suc i \<le> k" "k \<le> j" "m_threads s ! k = self p"
      "GetCurrentThreadIndex_from p s (Suc i) = Inr (word_of_nat k)" by blast
    with lt False show ?thesis
      by (intro exI [of _ k]) (simp add: GetCurrentThreadIndex_from.simps [of p s i])
  qed
qed

lemma GetCurrentThreadIndex_from_not_found:
  "length (m_threads s) = unat (m_numThreads s) \<Longrightarrow>
   \<forall>j. i \<le> j \<and> j < unat (m_numThreads s) \<longrightarrow> m_threads s ! j \<noteq> self p \<Longrightarrow>
   GetCurrentThreadIndex_from p s i = Inr (kInvalidIndex p)"
proof (induction p s i rule: GetCurrentThreadIndex_from.induct)
  case (1 p s i)
  show ?case
  proof (cases "i < unat (m_numThreads s)")
    case False
    then show ?thesis by (simp add: GetCurrentThreadIndex_from.simps [of p s i])
  next
    case True
    with "1.prems" have lt: "i < length (m_threads s)" and ne: "m_threads s ! i \<noteq> self p" by simp_all
    from "1.prems"(2) have "\<forall>j. Suc i \<le> j \<and> j < unat (m_numThreads s) \<longrightarrow> m_threads s ! j \<noteq> self p"
      by auto
    from "1.IH" [OF True lt ne "1.prems"(1) this] True lt ne show ?thesis
      by (simp add: GetCurrentThreadIndex_from.simps [of p s i])
  qed
qed

lemma GetCurrentThreadIndex_member:
  assumes "length (m_threads s) = unat (m_numThreads s)" and "self p \<in> set (m_threads s)"
  shows "\<exists>k. k < unat (m_numThreads s) \<and> m_threads s ! k = self p \<and>
           GetCurrentThreadIndex p s = Inr (word_of_nat k) \<and> unat (word_of_nat k :: u32) = k"
proof -
  from assms obtain j where j: "j < unat (m_numThreads s)" "m_threads s ! j = self p"
    by (auto simp: in_set_conv_nth)
  from GetCurrentThreadIndex_from_found [OF assms(1) _ j, of 0]
  obtain k where k: "k \<le> j" "m_threads s ! k = self p"
    "GetCurrentThreadIndex_from p s 0 = Inr (word_of_nat k)" by auto
  from k(1) j(1) have lt: "k < unat (m_numThreads s)" by simp
  have "unat (m_numThreads s) < 2 ^ 32" using unsigned_less [of "m_numThreads s"] by simp
  with lt have "k < 2 ^ 32" by simp
  then have "unat (word_of_nat k :: u32) = k"
    by (simp add: unat_of_nat)
  with k lt show ?thesis
    by (intro exI [of _ k]) (simp add: GetCurrentThreadIndex_def)
qed

lemma GetCurrentThreadIndex_stranger:
  assumes "length (m_threads s) = unat (m_numThreads s)" and "self p \<notin> set (m_threads s)"
  shows "GetCurrentThreadIndex p s = Inr (kInvalidIndex p)"
proof -
  from assms have "\<forall>j. 0 \<le> j \<and> j < unat (m_numThreads s) \<longrightarrow> m_threads s ! j \<noteq> self p"
    by (auto simp: in_set_conv_nth)
  from GetCurrentThreadIndex_from_not_found [OF assms(1) this] show ?thesis
    by (simp add: GetCurrentThreadIndex_def)
qed

lemma GetCurrentThreadIndex_total:
  assumes "length (m_threads s) = unat (m_numThreads s)"
  shows "\<exists>i. GetCurrentThreadIndex p s = Inr i"
proof (cases "self p \<in> set (m_threads s)")
  case True
  from GetCurrentThreadIndex_member [OF assms True] show ?thesis by blast
next
  case False
  from GetCurrentThreadIndex_stranger [OF assms False] show ?thesis by simp
qed

lemma GetCurrentThreadIndex_emit [simp]:
  "GetCurrentThreadIndex p (emit e s) = GetCurrentThreadIndex p s"
  by (rule GetCurrentThreadIndex_cong) (simp_all add: emit_def)

lemma GetCurrentThreadIndex_update_tls [simp]:
  "GetCurrentThreadIndex p (update_tls i f s) = GetCurrentThreadIndex p s"
  by (rule GetCurrentThreadIndex_cong) (simp_all add: update_tls_def)

lemma GetCurrentThreadIndex_push_at [simp]:
  "GetCurrentThreadIndex p (push_at i q b s) = GetCurrentThreadIndex p s"
  by (rule GetCurrentThreadIndex_cong) (simp_all add: push_at_def emit_def)

lemma GetCurrentThreadIndex_Counter_Add [simp]:
  "GetCurrentThreadIndex p (Counter_Add c n s) = GetCurrentThreadIndex p s"
  by (rule GetCurrentThreadIndex_cong) (simp_all add: Counter_Add_def emit_def)

lemma GetCurrentThreadIndex_store_bundle [simp]:
  "GetCurrentThreadIndex p (store_bundle b v s) = GetCurrentThreadIndex p s"
  by (rule GetCurrentThreadIndex_cong) (simp_all add: store_bundle_def)

lemma GetCurrentThreadIndex_live_bundles [simp]:
  "GetCurrentThreadIndex p (s\<lparr>live_bundles := x\<rparr>) = GetCurrentThreadIndex p s"
  by (rule GetCurrentThreadIndex_cong) simp_all

lemma GetCurrentThreadIndex_live_fibers [simp]:
  "GetCurrentThreadIndex p (s\<lparr>live_fibers := x\<rparr>) = GetCurrentThreadIndex p s"
  by (rule GetCurrentThreadIndex_cong) simp_all

lemma length_tls_emit [simp]: "length (m_tls (emit e s)) = length (m_tls s)"
  by (simp add: emit_def)

lemma length_tls_update_tls [simp]: "length (m_tls (update_tls i f s)) = length (m_tls s)"
  by (simp add: update_tls_def)

lemma length_tls_push_at [simp]: "length (m_tls (push_at i q b s)) = length (m_tls s)"
  by (simp add: push_at_def emit_def)

lemma length_tls_store_bundle [simp]: "length (m_tls (store_bundle b v s)) = length (m_tls s)"
  by (simp add: store_bundle_def)

lemma behavior_emit [simp]: "m_emptyQueueBehavior (emit e s) = m_emptyQueueBehavior s"
  by (simp add: emit_def)

lemma AddReadyFiber_in_bounds:
  assumes "GetCurrentThreadIndex p s = Inr i" and "unat i < length (m_tls s)"
    and "i \<noteq> kInvalidIndex p"
    and "pinned = kNoThreadPinning p \<or> unat pinned < length (m_tls s)"
  shows "\<exists>s'. AddReadyFiber p pinned b s = Inr s'"
  using assms by (auto simp: AddReadyFiber_def Let_def)

lemma WaitForPredicate_iteration_in_bounds:
  assumes "GetCurrentThreadIndex p s = Inr i" and "unat i < length (m_tls s)"
    and "i \<noteq> kInvalidIndex p"
  shows "WaitForPredicate_iteration p pred pin (unat i) s \<noteq> Inl OutOfBounds"
proof -
  define s3 where "s3 = snd (GetNextFreeFiber (store_bundle (fst (CreateFiberBundle s))
     \<lparr>Fiber = CurrentFiber (m_tls s ! unat i), FiberIsSwitched = False, SpinCount = 15\<rparr>
     (snd (CreateFiberBundle s))))"
  have a: "GetCurrentThreadIndex p s3 = Inr i" "length (m_tls s3) = length (m_tls s)"
    using assms by (simp_all add: s3_def GetNextFreeFiber_def CreateFiberBundle_def Let_def)
  have "\<exists>s'. AddReadyFiber p (kNoThreadPinning p) (fst (CreateFiberBundle s)) s3 = Inr s'"
    using AddReadyFiber_in_bounds [OF a(1)] a(2) assms by simp
  moreover have "\<exists>s'. AddReadyFiber p i (fst (CreateFiberBundle s)) s3 = Inr s'"
    using AddReadyFiber_in_bounds [OF a(1)] a(2) assms by simp
  ultimately show ?thesis
    using assms
    by (auto simp: WaitForPredicate_iteration_def switch_to_free_fiber_def choose_pinnedThreadIndex_def
          new_ReadyFiberBundle_def Let_def s3_def split: prod.splits sum.splits option.splits)
qed

text \<open>
  C9. \<^verbatim>\<open>GetCurrentFiber\<close>, \<^verbatim>\<open>WaitForCounterInternal\<close> and \<^verbatim>\<open>WaitForPredicate\<close> index
  \<^verbatim>\<open>m_tls\<close> with the result of \<^verbatim>\<open>GetCurrentThreadIndex\<close> as it is. With the arrays
  allocated for \<^verbatim>\<open>m_numThreads\<close> workers and \<^verbatim>\<open>kInvalidIndex\<close> no smaller than
  \<^verbatim>\<open>m_numThreads\<close>, \<^verbatim>\<open>GetCurrentThreadIndex\<close> returns \<^verbatim>\<open>kInvalidIndex\<close> for a thread that is
  not one of the scheduler's, and the access to \<^verbatim>\<open>m_tls\<close> is out of bounds exactly for such
  a thread: in \<^verbatim>\<open>GetCurrentFiber\<close> always, in \<^verbatim>\<open>WaitForPredicate\<close> when the predicate is
  false (when it is true the function returns before it reads through the pointer), in
  \<^verbatim>\<open>WaitForCounterInternal\<close> past the fast path (which returns before line 940).
\<close>

theorem tls_index_needs_scheduler_thread:
  assumes "arrays_allocated s" and "m_numThreads s \<le> kInvalidIndex p"
  shows "(self p \<notin> set (m_threads s) \<longrightarrow> GetCurrentThreadIndex p s = Inr (kInvalidIndex p)) \<and>
     (GetCurrentFiber p s = Inl OutOfBounds \<longleftrightarrow> self p \<notin> set (m_threads s)) \<and>
     (\<not> pred \<longrightarrow>
        (WaitForPredicate p pred pin s = Inl OutOfBounds \<longleftrightarrow> self p \<notin> set (m_threads s))) \<and>
     (pred \<longrightarrow> WaitForPredicate p pred pin s = Inr (Returned s)) \<and>
     (counter_value s c \<noteq> v \<longrightarrow>
        (WaitForCounterInternal p c v pin loads done s = Some (Inl OutOfBounds)
           \<longleftrightarrow> self p \<notin> set (m_threads s)))"
proof (cases "self p \<in> set (m_threads s)")
  case False
  from assms have len: "length (m_threads s) = unat (m_numThreads s)"
    "length (m_tls s) = unat (m_numThreads s)" by (simp_all add: arrays_allocated_def)
  from GetCurrentThreadIndex_stranger [OF len(1) False]
  have g: "GetCurrentThreadIndex p s = Inr (kInvalidIndex p)" .
  from assms(2) have "unat (m_numThreads s) \<le> unat (kInvalidIndex p)"
    by (simp add: word_le_nat_alt)
  with len have oob: "\<not> unat (kInvalidIndex p) < length (m_tls s)" by simp
  from False g oob show ?thesis
    by (simp add: GetCurrentFiber_def WaitForPredicate_def WaitForPredicate_iteration_def
          WaitForCounterInternal_def)
next
  case True
  from assms have len: "length (m_threads s) = unat (m_numThreads s)"
    "length (m_tls s) = unat (m_numThreads s)" by (simp_all add: arrays_allocated_def)
  from GetCurrentThreadIndex_member [OF len(1) True]
  obtain k where k: "k < unat (m_numThreads s)" "GetCurrentThreadIndex p s = Inr (word_of_nat k)"
    "unat (word_of_nat k :: u32) = k" by blast
  define i :: u32 where "i = word_of_nat k"
  from k len have i: "GetCurrentThreadIndex p s = Inr i" "unat i < length (m_tls s)"
    by (simp_all add: i_def)
  from assms(2) have "unat (m_numThreads s) \<le> unat (kInvalidIndex p)"
    by (simp add: word_le_nat_alt)
  with i len have ne: "i \<noteq> kInvalidIndex p" by auto
  have 1: "GetCurrentFiber p s \<noteq> Inl OutOfBounds"
    using i by (simp add: GetCurrentFiber_def)
  have 2: "WaitForPredicate p pred pin s \<noteq> Inl OutOfBounds"
    using i WaitForPredicate_iteration_in_bounds [OF i ne] by (simp add: WaitForPredicate_def)
  have 4: "pred \<Longrightarrow> WaitForPredicate p pred pin s = Inr (Returned s)"
    using i by (simp add: WaitForPredicate_def WaitForPredicate_iteration_def)
  have 3: "counter_value s c \<noteq> v \<Longrightarrow>
      WaitForCounterInternal p c v pin loads done s \<noteq> Some (Inl OutOfBounds)"
    using i
    by (auto simp: WaitForCounterInternal_def Let_def AddFiberToWaitingList_def
          switch_to_free_fiber_def choose_pinnedThreadIndex_def new_ReadyFiberBundle_def
          split: prod.splits sum.splits option.splits bool.splits)
  from True 1 2 3 4 show ?thesis by (cases pred) simp_all
qed

theorem tls_index_needs_scheduler_thread_witness:
  "arrays_allocated ex_running \<and> m_numThreads ex_running \<le> kInvalidIndex (ex_platform\<lparr>self := 7\<rparr>) \<and>
   self (ex_platform\<lparr>self := 7\<rparr>) \<notin> set (m_threads ex_running) \<and>
   GetCurrentThreadIndex (ex_platform\<lparr>self := 7\<rparr>) ex_running = Inr (kInvalidIndex (ex_platform\<lparr>self := 7\<rparr>)) \<and>
   GetCurrentFiber (ex_platform\<lparr>self := 7\<rparr>) ex_running = Inl OutOfBounds \<and>
   WaitForPredicate (ex_platform\<lparr>self := 7\<rparr>) False False ex_running = Inl OutOfBounds \<and>
   WaitForPredicate (ex_platform\<lparr>self := 7\<rparr>) True False ex_running = Inr (Returned ex_running) \<and>
   counter_value ex_running 5 \<noteq> 1 \<and>
   WaitForCounterInternal (ex_platform\<lparr>self := 7\<rparr>) 5 1 False (\<lambda>k. 0) False ex_running
     = Some (Inl OutOfBounds) \<and>
   self ex_platform \<in> set (m_threads ex_running) \<and>
   GetCurrentFiber ex_platform ex_running \<noteq> Inl OutOfBounds \<and>
   WaitForPredicate ex_platform False False ex_running \<noteq> Inl OutOfBounds"
proof -
  have h1: "arrays_allocated ex_running" by code_simp
  have h2: "m_numThreads ex_running \<le> kInvalidIndex (ex_platform\<lparr>self := 7\<rparr>)" by code_simp
  have h2': "m_numThreads ex_running \<le> kInvalidIndex ex_platform" by code_simp
  have h3: "self (ex_platform\<lparr>self := 7\<rparr>) \<notin> set (m_threads ex_running)" by code_simp
  have h4: "self ex_platform \<in> set (m_threads ex_running)" by code_simp
  have h5: "counter_value ex_running 5 \<noteq> 1" by code_simp
  from tls_index_needs_scheduler_thread [OF h1 h2, of False False 5 1 "\<lambda>k. 0" False]
    tls_index_needs_scheduler_thread [OF h1 h2, of True False 5 1 "\<lambda>k. 0" False]
    tls_index_needs_scheduler_thread [OF h1 h2', of False False 5 1 "\<lambda>k. 0" False]
    h1 h2 h3 h4 h5
  show ?thesis by simp
qed

subsection \<open>AddTask and AddTasks\<close>

lemma events_emit [simp]: "events (emit e s) = events s @ [e]"
  by (simp add: emit_def)

lemma events_push_at [simp]: "events (push_at i q b s) = events s @ [QueuePush i q b]"
  by (simp add: push_at_def emit_def)

lemma events_Counter_Add [simp]: "events (Counter_Add c n s) = events s @ [CounterAdd c n]"
  by (simp add: Counter_Add_def emit_def)

lemma behavior_push_at [simp]: "m_emptyQueueBehavior (push_at i q b s) = m_emptyQueueBehavior s"
  by (simp add: push_at_def emit_def)

lemma behavior_Counter_Add [simp]: "m_emptyQueueBehavior (Counter_Add c n s) = m_emptyQueueBehavior s"
  by (simp add: Counter_Add_def emit_def)

lemma counter_value_emit [simp]: "counter_value (emit e s) = counter_value s"
  by (simp add: emit_def)

lemma counter_value_push_at [simp]: "counter_value (push_at i q b s) = counter_value s"
  by (simp add: push_at_def emit_def)

lemma counter_value_Counter_Add [simp]:
  "counter_value (Counter_Add c n s) = (counter_value s)(c := counter_value s c + n)"
  by (simp add: Counter_Add_def emit_def)

lemma m_tls_emit [simp]: "m_tls (emit e s) = m_tls s"
  by (simp add: emit_def)

lemma m_tls_Counter_Add [simp]: "m_tls (Counter_Add c n s) = m_tls s"
  by (simp add: Counter_Add_def emit_def)

lemma m_tls_push_at [simp]:
  "m_tls (push_at i q b s) = (m_tls s)[i := set_queue q (b # queue_of q (m_tls s ! i)) (m_tls s ! i)]"
  by (simp add: push_at_def emit_def)

lemma queue_of_set_queue [simp]: "queue_of q (set_queue q xs tls) = xs"
  by (cases q) (simp_all add: queue_of_def set_queue_def)

lemma AddTasks_loop_events:
  "AddTasks_loop p numTasks tasks counter ti q i s = Inr s' \<Longrightarrow>
   events s' = events s @ map (\<lambda>t. QueuePush ti q (mk_bundle counter t)) (drop i (take (unat numTasks) tasks))
   \<and> m_emptyQueueBehavior s' = m_emptyQueueBehavior s \<and> counter_value s' = counter_value s
   \<and> unat numTasks \<le> max i (length tasks)"
proof (induction p numTasks tasks counter ti q i s rule: AddTasks_loop.induct)
  case (1 p numTasks tasks counter ti q i s)
  show ?case
  proof (cases "i < unat numTasks")
    case False
    with "1.prems" show ?thesis
      by (simp add: AddTasks_loop.simps [of p numTasks tasks counter ti q i s])
  next
    case True
    note lt = this
    from "1.prems" lt have len: "i < length tasks"
      and na: "\<not> FTL_ASSERT p ''Task given to TaskScheduler:AddTasks has a nullptr Function''
                   (Function (tasks ! i) \<noteq> NullFunction)"
      by (auto simp: AddTasks_loop.simps [of p numTasks tasks counter ti q i s] split: if_splits)
    from "1.prems" lt len na obtain s1 where
      s1: "Push ti q \<lparr>TaskToExecute = tasks ! i, Counter = counter\<rparr> s = Inr s1"
      and rec: "AddTasks_loop p numTasks tasks counter ti q (Suc i) s1 = Inr s'"
      by (auto simp: AddTasks_loop.simps [of p numTasks tasks counter ti q i s] split: sum.splits)
    from s1 have s1': "s1 = push_at ti q (mk_bundle counter (tasks ! i)) s"
      by (auto simp: Push_def mk_bundle_def split: if_splits)
    have d: "drop i (take (unat numTasks) tasks) = tasks ! i # drop (Suc i) (take (unat numTasks) tasks)"
      using lt len by (simp add: Cons_nth_drop_Suc [symmetric])
    from "1.IH" [OF lt _ na s1 rec] len have
      "events s' = events s1 @ map (\<lambda>t. QueuePush ti q (mk_bundle counter t)) (drop (Suc i) (take (unat numTasks) tasks))
       \<and> m_emptyQueueBehavior s' = m_emptyQueueBehavior s1 \<and> counter_value s' = counter_value s1
       \<and> unat numTasks \<le> max (Suc i) (length tasks)"
      by simp
    with len show ?thesis
      by (simp add: s1' d)
  qed
qed

lemma AddTasks_Inr:
  assumes "AddTasks p numTasks tasks priority counter s = Inr s'"
  defines "s1 \<equiv> (case counter of None \<Rightarrow> s | Some c \<Rightarrow> Counter_Add c numTasks s)"
  shows "\<exists>ti. GetCurrentThreadIndex p s = Inr ti \<and>
     (priority = High \<or> priority = Normal \<longrightarrow>
        (\<exists>s2. AddTasks_loop p numTasks tasks counter (unat (if ti = kInvalidIndex p then 0 else ti))
                 (if priority = High then HiPri else LoPri) 0 s1 = Inr s2 \<and>
              s' = (if m_emptyQueueBehavior s2 = Sleep then emit NotifyAll s2 else s2))) \<and>
     (priority \<noteq> High \<and> priority \<noteq> Normal \<longrightarrow> s' = s1 \<and> \<not> asserts_enabled p)"
proof -
  have g: "GetCurrentThreadIndex p s1 = GetCurrentThreadIndex p s" and l: "length (m_tls s1) = length (m_tls s)"
    by (simp_all add: s1_def split: option.splits)
  from assms(1) obtain ti where ti: "GetCurrentThreadIndex p s = Inr ti"
    unfolding AddTasks_def Let_def s1_def [symmetric] g
    by (auto split: sum.splits)
  from assms(1) show ?thesis
    unfolding AddTasks_def Let_def s1_def [symmetric] g l ti
    by (intro exI [of _ ti]) (auto simp: FTL_ASSERT_def split: if_splits sum.splits option.splits)
qed

text \<open>
  C5. A call of \<^verbatim>\<open>AddTask\<close> or \<^verbatim>\<open>AddTasks\<close> with a counter that returns has logged, after
  the events that were there before, first the \<^verbatim>\<open>Add\<close> on the counter (of \<open>1\<close>, or of
  \<^verbatim>\<open>numTasks\<close>) and only then the pushes of its bundles (and the wake-up): the \<^verbatim>\<open>Add\<close>
  precedes the enqueue of every task it covers.
\<close>

theorem counter_Add_precedes_Push:
  "(AddTask p task priority (Some c) s = Inr s' \<longrightarrow>
      (\<exists>ti. events s' = events s @ CounterAdd c 1 #
          (if priority = High then [QueuePush ti HiPri (mk_bundle (Some c) task)]
           else if priority = Normal then [QueuePush ti LoPri (mk_bundle (Some c) task)]
           else []) @
          (if m_emptyQueueBehavior s = Sleep then [NotifyOne] else []))) \<and>
   (AddTasks p numTasks tasks priority (Some c) s = Inr s' \<longrightarrow>
      (\<exists>ti. events s' = events s @ CounterAdd c numTasks #
          (if priority = High
           then map (\<lambda>t. QueuePush ti HiPri (mk_bundle (Some c) t)) (take (unat numTasks) tasks) @
                (if m_emptyQueueBehavior s = Sleep then [NotifyAll] else [])
           else if priority = Normal
           then map (\<lambda>t. QueuePush ti LoPri (mk_bundle (Some c) t)) (take (unat numTasks) tasks) @
                (if m_emptyQueueBehavior s = Sleep then [NotifyAll] else [])
           else [])))"
proof (intro conjI impI)
  assume a: "AddTask p task priority (Some c) s = Inr s'"
  then obtain ti where ti: "GetCurrentThreadIndex p s = Inr ti"
    by (auto simp: AddTask_def Let_def split: if_splits sum.splits)
  define threadIndex where "threadIndex = unat (if ti = kInvalidIndex p then 0 else ti)"
  show "\<exists>ti. events s' = events s @ CounterAdd c 1 #
          (if priority = High then [QueuePush ti HiPri (mk_bundle (Some c) task)]
           else if priority = Normal then [QueuePush ti LoPri (mk_bundle (Some c) task)]
           else []) @
          (if m_emptyQueueBehavior s = Sleep then [NotifyOne] else [])"
    using a ti
    by (intro exI [of _ threadIndex])
       (auto simp: AddTask_def Let_def Push_def mk_bundle_def threadIndex_def
             split: if_splits sum.splits)
next
  assume a: "AddTasks p numTasks tasks priority (Some c) s = Inr s'"
  from AddTasks_Inr [OF a] obtain ti where ti: "GetCurrentThreadIndex p s = Inr ti"
    and hn: "priority = High \<or> priority = Normal \<longrightarrow>
        (\<exists>s2. AddTasks_loop p numTasks tasks (Some c) (unat (if ti = kInvalidIndex p then 0 else ti))
                 (if priority = High then HiPri else LoPri) 0 (Counter_Add c numTasks s) = Inr s2 \<and>
              s' = (if m_emptyQueueBehavior s2 = Sleep then emit NotifyAll s2 else s2))"
    and other: "priority \<noteq> High \<and> priority \<noteq> Normal \<longrightarrow> s' = Counter_Add c numTasks s"
    by auto
  define threadIndex where "threadIndex = unat (if ti = kInvalidIndex p then 0 else ti)"
  show "\<exists>ti. events s' = events s @ CounterAdd c numTasks #
          (if priority = High
           then map (\<lambda>t. QueuePush ti HiPri (mk_bundle (Some c) t)) (take (unat numTasks) tasks) @
                (if m_emptyQueueBehavior s = Sleep then [NotifyAll] else [])
           else if priority = Normal
           then map (\<lambda>t. QueuePush ti LoPri (mk_bundle (Some c) t)) (take (unat numTasks) tasks) @
                (if m_emptyQueueBehavior s = Sleep then [NotifyAll] else [])
           else [])"
  proof (cases "priority = High \<or> priority = Normal")
    case False
    with other show ?thesis by simp
  next
    case True
    with hn obtain s2 where
      loop: "AddTasks_loop p numTasks tasks (Some c) threadIndex
                 (if priority = High then HiPri else LoPri) 0 (Counter_Add c numTasks s) = Inr s2"
      and s': "s' = (if m_emptyQueueBehavior s2 = Sleep then emit NotifyAll s2 else s2)"
      by (auto simp: threadIndex_def)
    from AddTasks_loop_events [OF loop]
    have "events s2 = events s @ CounterAdd c numTasks #
        map (\<lambda>t. QueuePush threadIndex (if priority = High then HiPri else LoPri) (mk_bundle (Some c) t))
          (take (unat numTasks) tasks)"
      and "m_emptyQueueBehavior s2 = m_emptyQueueBehavior s"
      by simp_all
    with True s' show ?thesis
      by (intro exI [of _ threadIndex]) auto
  qed
qed

theorem counter_Add_precedes_Push_witness:
  "(\<exists>s'. AddTask ex_platform ex_task High (Some 5) ex_running = Inr s' \<and>
      (\<exists>ti. events s' = events ex_running @
         [CounterAdd 5 1, QueuePush ti HiPri (mk_bundle (Some 5) ex_task), NotifyOne])) \<and>
   (\<exists>s'. AddTasks ex_platform 2 [ex_task, null_task] Normal (Some 5) ex_running = Inr s' \<and>
      (\<exists>ti. events s' = events ex_running @
         [CounterAdd 5 2, QueuePush ti LoPri (mk_bundle (Some 5) ex_task),
          QueuePush ti LoPri (mk_bundle (Some 5) null_task), NotifyAll]))"
proof -
  have "\<not> isl (AddTask ex_platform ex_task High (Some 5) ex_running)" by code_simp
  then obtain s1 where s1: "AddTask ex_platform ex_task High (Some 5) ex_running = Inr s1"
    by (cases "AddTask ex_platform ex_task High (Some 5) ex_running") auto
  have "\<not> isl (AddTasks ex_platform 2 [ex_task, null_task] Normal (Some 5) ex_running)" by code_simp
  then obtain s2 where s2: "AddTasks ex_platform 2 [ex_task, null_task] Normal (Some 5) ex_running = Inr s2"
    by (cases "AddTasks ex_platform 2 [ex_task, null_task] Normal (Some 5) ex_running") auto
  have b: "m_emptyQueueBehavior ex_running = Sleep" by code_simp
  from counter_Add_precedes_Push [of ex_platform ex_task High 5 ex_running s1 2 "[ex_task, null_task]"]
    counter_Add_precedes_Push [of ex_platform ex_task Normal 5 ex_running s2 2 "[ex_task, null_task]"]
    s1 s2 b show ?thesis
    by simp
qed

lemma set_queue_set_queue [simp]: "set_queue q xs (set_queue q ys tls) = set_queue q xs tls"
  by (cases q) (simp_all add: set_queue_def)

lemma AddTasks_loop_release:
  "\<not> asserts_enabled p \<Longrightarrow> ti < length (m_tls s) \<Longrightarrow> unat numTasks \<le> length tasks \<Longrightarrow>
   \<exists>s'. AddTasks_loop p numTasks tasks counter ti q i s = Inr s' \<and>
     queue_of q (m_tls s' ! ti) =
       rev (map (mk_bundle counter) (drop i (take (unat numTasks) tasks))) @ queue_of q (m_tls s ! ti)"
proof (induction p numTasks tasks counter ti q i s rule: AddTasks_loop.induct)
  case (1 p numTasks tasks counter ti q i s)
  show ?case
  proof (cases "i < unat numTasks")
    case False
    then show ?thesis
      by (simp add: AddTasks_loop.simps [of p numTasks tasks counter ti q i s])
  next
    case True
    note lt = this
    with "1.prems" have len: "i < length tasks" by simp
    have na: "\<not> FTL_ASSERT p ''Task given to TaskScheduler:AddTasks has a nullptr Function''
                   (Function (tasks ! i) \<noteq> NullFunction)"
      using "1.prems"(1) by (simp add: FTL_ASSERT_def)
    define s1 where "s1 = push_at ti q (mk_bundle counter (tasks ! i)) s"
    have s1: "Push ti q \<lparr>TaskToExecute = tasks ! i, Counter = counter\<rparr> s = Inr s1"
      using "1.prems"(2) by (simp add: Push_def s1_def mk_bundle_def)
    have "ti < length (m_tls s1)" using "1.prems"(2) by (simp add: s1_def)
    from "1.IH" [OF lt _ na s1 "1.prems"(1) this "1.prems"(3)] len
    obtain s' where s': "AddTasks_loop p numTasks tasks counter ti q (Suc i) s1 = Inr s'"
      "queue_of q (m_tls s' ! ti) =
         rev (map (mk_bundle counter) (drop (Suc i) (take (unat numTasks) tasks))) @ queue_of q (m_tls s1 ! ti)"
      by auto
    have d: "drop i (take (unat numTasks) tasks) = tasks ! i # drop (Suc i) (take (unat numTasks) tasks)"
      using lt len by (simp add: Cons_nth_drop_Suc [symmetric])
    have q1: "queue_of q (m_tls s1 ! ti) = mk_bundle counter (tasks ! i) # queue_of q (m_tls s ! ti)"
      using "1.prems"(2) by (simp add: s1_def)
    from s' lt len na s1 show ?thesis
      by (simp add: AddTasks_loop.simps [of p numTasks tasks counter ti q i s] d q1)
  qed
qed

lemma AddTasks_loop_debug:
  "asserts_enabled p \<Longrightarrow> ti < length (m_tls s) \<Longrightarrow> unat numTasks \<le> length tasks \<Longrightarrow>
   \<exists>j. i \<le> j \<and> j < unat numTasks \<and> Function (tasks ! j) = NullFunction \<Longrightarrow>
   AddTasks_loop p numTasks tasks counter ti q i s =
     Inl (AssertionFailed ''Task given to TaskScheduler:AddTasks has a nullptr Function'')"
proof (induction p numTasks tasks counter ti q i s rule: AddTasks_loop.induct)
  case (1 p numTasks tasks counter ti q i s)
  from "1.prems"(4) obtain j where j: "i \<le> j" "j < unat numTasks" "Function (tasks ! j) = NullFunction"
    by blast
  then have lt: "i < unat numTasks" by simp
  with "1.prems" have len: "i < length tasks" by simp
  show ?case
  proof (cases "Function (tasks ! i) = NullFunction")
    case True
    with lt len "1.prems"(1) show ?thesis
      by (simp add: AddTasks_loop.simps [of p numTasks tasks counter ti q i s] FTL_ASSERT_def)
  next
    case False
    then have na: "\<not> FTL_ASSERT p ''Task given to TaskScheduler:AddTasks has a nullptr Function''
                   (Function (tasks ! i) \<noteq> NullFunction)"
      by (simp add: FTL_ASSERT_def)
    define s1 where "s1 = push_at ti q (mk_bundle counter (tasks ! i)) s"
    have s1: "Push ti q \<lparr>TaskToExecute = tasks ! i, Counter = counter\<rparr> s = Inr s1"
      using "1.prems"(2) by (simp add: Push_def s1_def mk_bundle_def)
    have l1: "ti < length (m_tls s1)" using "1.prems"(2) by (simp add: s1_def)
    from False j have "i \<noteq> j" by auto
    with j have "\<exists>j. Suc i \<le> j \<and> j < unat numTasks \<and> Function (tasks ! j) = NullFunction"
      by (intro exI [of _ j]) simp
    from "1.IH" [OF lt _ na s1 "1.prems"(1) l1 "1.prems"(3) this] len lt na s1 show ?thesis
      by (simp add: AddTasks_loop.simps [of p numTasks tasks counter ti q i s])
  qed
qed

lemma thread_index_in_range:
  assumes "arrays_allocated s" and "m_numThreads s \<noteq> 0"
  shows "\<exists>ti. GetCurrentThreadIndex p s = Inr ti \<and>
     unat (if ti = kInvalidIndex p then 0 else ti) < length (m_tls s)"
proof -
  from assms have len: "length (m_threads s) = unat (m_numThreads s)"
    "length (m_tls s) = unat (m_numThreads s)" "0 < unat (m_numThreads s)"
    by (simp_all add: arrays_allocated_def unat_gt_0)
  show ?thesis
  proof (cases "self p \<in> set (m_threads s)")
    case True
    from GetCurrentThreadIndex_member [OF len(1) True] len show ?thesis by auto
  next
    case False
    from GetCurrentThreadIndex_stranger [OF len(1) False] len show ?thesis by simp
  qed
qed

text \<open>
  C8, as amended. A null task function is checked by \<^verbatim>\<open>FTL_ASSERT\<close> alone. In a debug
  build \<^verbatim>\<open>AddTask\<close> ends in the assertion, and so does \<^verbatim>\<open>AddTasks\<close> when one of its
  tasks has a null function. In a release build there is no check: \<^verbatim>\<open>AddTask\<close> pushes the
  bundle of the task whatever its function is, and \<^verbatim>\<open>AddTasks\<close> pushes all \<^verbatim>\<open>numTasks\<close>
  bundles.
\<close>

theorem null_Function_checked_only_by_assertion:
  "(asserts_enabled p \<and> Function task = NullFunction \<longrightarrow>
      AddTask p task priority counter s =
        Inl (AssertionFailed ''Task given to TaskScheduler:AddTask has a nullptr Function'')) \<and>
   (\<not> asserts_enabled p \<and> arrays_allocated s \<and> m_numThreads s \<noteq> 0 \<and>
    (priority = High \<or> priority = Normal) \<longrightarrow>
      (\<exists>s' ti. AddTask p task priority counter s = Inr s' \<and> ti < length (m_tls s) \<and>
         queue_of (if priority = High then HiPri else LoPri) (m_tls s' ! ti) =
           mk_bundle counter task # queue_of (if priority = High then HiPri else LoPri) (m_tls s ! ti))) \<and>
   (asserts_enabled p \<and> arrays_allocated s \<and> m_numThreads s \<noteq> 0 \<and>
    (priority = High \<or> priority = Normal) \<and> unat numTasks \<le> length tasks \<and>
    (\<exists>j. j < unat numTasks \<and> Function (tasks ! j) = NullFunction) \<longrightarrow>
      AddTasks p numTasks tasks priority counter s =
        Inl (AssertionFailed ''Task given to TaskScheduler:AddTasks has a nullptr Function'')) \<and>
   (\<not> asserts_enabled p \<and> arrays_allocated s \<and> m_numThreads s \<noteq> 0 \<and>
    (priority = High \<or> priority = Normal) \<and> unat numTasks \<le> length tasks \<longrightarrow>
      (\<exists>s' ti. AddTasks p numTasks tasks priority counter s = Inr s' \<and> ti < length (m_tls s) \<and>
         queue_of (if priority = High then HiPri else LoPri) (m_tls s' ! ti) =
           rev (map (mk_bundle counter) (take (unat numTasks) tasks)) @
           queue_of (if priority = High then HiPri else LoPri) (m_tls s ! ti)))"
proof (intro conjI impI)
  assume "asserts_enabled p \<and> Function task = NullFunction"
  then show "AddTask p task priority counter s =
        Inl (AssertionFailed ''Task given to TaskScheduler:AddTask has a nullptr Function'')"
    by (simp add: AddTask_def FTL_ASSERT_def)
next
  assume a: "\<not> asserts_enabled p \<and> arrays_allocated s \<and> m_numThreads s \<noteq> 0 \<and>
    (priority = High \<or> priority = Normal)"
  define s1 where "s1 = (case counter of None \<Rightarrow> s | Some c \<Rightarrow> Counter_Add c 1 s)"
  have s1: "GetCurrentThreadIndex p s1 = GetCurrentThreadIndex p s" "m_tls s1 = m_tls s"
    by (simp_all add: s1_def split: option.splits)
  from thread_index_in_range [of s p] a obtain ti where
    ti: "GetCurrentThreadIndex p s = Inr ti" "unat (if ti = kInvalidIndex p then 0 else ti) < length (m_tls s)"
    by blast
  define i where "i = unat (if ti = kInvalidIndex p then 0 else ti)"
  from a ti s1 show "\<exists>s' ti. AddTask p task priority counter s = Inr s' \<and> ti < length (m_tls s) \<and>
         queue_of (if priority = High then HiPri else LoPri) (m_tls s' ! ti) =
           mk_bundle counter task # queue_of (if priority = High then HiPri else LoPri) (m_tls s ! ti)"
    unfolding AddTask_def Let_def s1_def [symmetric]
    by (intro exI [of _ "if m_emptyQueueBehavior s1 = Sleep
            then emit NotifyOne (push_at i (if priority = High then HiPri else LoPri) (mk_bundle counter task) s1)
            else push_at i (if priority = High then HiPri else LoPri) (mk_bundle counter task) s1"]
          exI [of _ i])
       (auto simp: FTL_ASSERT_def Push_def i_def mk_bundle_def)
next
  assume a: "asserts_enabled p \<and> arrays_allocated s \<and> m_numThreads s \<noteq> 0 \<and>
    (priority = High \<or> priority = Normal) \<and> unat numTasks \<le> length tasks \<and>
    (\<exists>j. j < unat numTasks \<and> Function (tasks ! j) = NullFunction)"
  define s1 where "s1 = (case counter of None \<Rightarrow> s | Some c \<Rightarrow> Counter_Add c numTasks s)"
  have s1: "GetCurrentThreadIndex p s1 = GetCurrentThreadIndex p s" "m_tls s1 = m_tls s"
    by (simp_all add: s1_def split: option.splits)
  from thread_index_in_range [of s p] a obtain ti where
    ti: "GetCurrentThreadIndex p s = Inr ti" "unat (if ti = kInvalidIndex p then 0 else ti) < length (m_tls s)"
    by blast
  from a have ex: "\<exists>j. 0 \<le> j \<and> j < unat numTasks \<and> Function (tasks ! j) = NullFunction" by simp
  have "AddTasks_loop p numTasks tasks counter (unat (if ti = kInvalidIndex p then 0 else ti)) q 0 s1 =
     Inl (AssertionFailed ''Task given to TaskScheduler:AddTasks has a nullptr Function'')" for q
    using AddTasks_loop_debug [OF _ _ _ ex, of p "unat (if ti = kInvalidIndex p then 0 else ti)" s1] a ti s1
    by simp
  with a ti s1 show "AddTasks p numTasks tasks priority counter s =
        Inl (AssertionFailed ''Task given to TaskScheduler:AddTasks has a nullptr Function'')"
    unfolding AddTasks_def Let_def s1_def [symmetric]
    by auto
next
  assume a: "\<not> asserts_enabled p \<and> arrays_allocated s \<and> m_numThreads s \<noteq> 0 \<and>
    (priority = High \<or> priority = Normal) \<and> unat numTasks \<le> length tasks"
  define s1 where "s1 = (case counter of None \<Rightarrow> s | Some c \<Rightarrow> Counter_Add c numTasks s)"
  have s1: "GetCurrentThreadIndex p s1 = GetCurrentThreadIndex p s" "m_tls s1 = m_tls s"
    by (simp_all add: s1_def split: option.splits)
  from thread_index_in_range [of s p] a obtain ti where
    ti: "GetCurrentThreadIndex p s = Inr ti" "unat (if ti = kInvalidIndex p then 0 else ti) < length (m_tls s)"
    by blast
  define i where "i = unat (if ti = kInvalidIndex p then 0 else ti)"
  define q where "q = (if priority = High then HiPri else LoPri)"
  from AddTasks_loop_release [of p i s1 numTasks tasks counter q 0] a ti s1
  obtain s2 where s2: "AddTasks_loop p numTasks tasks counter i q 0 s1 = Inr s2"
    "queue_of q (m_tls s2 ! i) = rev (map (mk_bundle counter) (take (unat numTasks) tasks)) @ queue_of q (m_tls s ! i)"
    by (auto simp: i_def)
  from a ti s1 s2 show "\<exists>s' ti. AddTasks p numTasks tasks priority counter s = Inr s' \<and> ti < length (m_tls s) \<and>
         queue_of (if priority = High then HiPri else LoPri) (m_tls s' ! ti) =
           rev (map (mk_bundle counter) (take (unat numTasks) tasks)) @
           queue_of (if priority = High then HiPri else LoPri) (m_tls s ! ti)"
    unfolding AddTasks_def Let_def s1_def [symmetric]
    by (intro exI [of _ "if m_emptyQueueBehavior s2 = Sleep then emit NotifyAll s2 else s2"] exI [of _ i])
       (auto simp: i_def q_def)
qed

theorem null_Function_checked_only_by_assertion_witness:
  "asserts_enabled (ex_platform\<lparr>asserts_enabled := True\<rparr>) \<and> Function null_task = NullFunction \<and>
   AddTask (ex_platform\<lparr>asserts_enabled := True\<rparr>) null_task High None ex_running =
     Inl (AssertionFailed ''Task given to TaskScheduler:AddTask has a nullptr Function'') \<and>
   \<not> asserts_enabled ex_platform \<and> arrays_allocated ex_running \<and> m_numThreads ex_running \<noteq> 0 \<and>
   (\<exists>s' ti. AddTask ex_platform null_task High None ex_running = Inr s' \<and>
      ti < length (m_tls ex_running) \<and>
      queue_of HiPri (m_tls s' ! ti) = mk_bundle None null_task # queue_of HiPri (m_tls ex_running ! ti)) \<and>
   AddTasks (ex_platform\<lparr>asserts_enabled := True\<rparr>) 2 [ex_task, null_task] High None ex_running =
     Inl (AssertionFailed ''Task given to TaskScheduler:AddTasks has a nullptr Function'') \<and>
   (\<exists>s' ti. AddTasks ex_platform 2 [ex_task, null_task] High None ex_running = Inr s' \<and>
      ti < length (m_tls ex_running) \<and>
      queue_of HiPri (m_tls s' ! ti) =
        [mk_bundle None null_task, mk_bundle None ex_task] @ queue_of HiPri (m_tls ex_running ! ti))"
proof -
  have e: "\<exists>j<2. Function ([ex_task, null_task] ! j) = NullFunction"
    by (rule exI [of _ 1]) (simp add: null_task_def)
  have h: "asserts_enabled (ex_platform\<lparr>asserts_enabled := True\<rparr>)" "Function null_task = NullFunction"
    "\<not> asserts_enabled ex_platform" "arrays_allocated ex_running" "m_numThreads ex_running \<noteq> 0"
    by code_simp+
  show ?thesis
    using null_Function_checked_only_by_assertion
        [of "ex_platform\<lparr>asserts_enabled := True\<rparr>" null_task High None ex_running 2 "[ex_task, null_task]"]
      null_Function_checked_only_by_assertion
        [of ex_platform null_task High None ex_running 2 "[ex_task, null_task]"]
      e h
    by simp
qed

text \<open>
  C8 as stated fails: in a release build \<^verbatim>\<open>AddTask\<close> of a task with a null function
  returns, and the bundle of that task is in the hi-priority queue of worker 0.
\<close>

theorem null_Function_enqueued_in_release:
  "Function null_task = NullFunction \<and> \<not> asserts_enabled ex_platform \<and>
   \<not> isl (AddTask ex_platform null_task High None ex_running) \<and>
   HiPriTaskQueue (m_tls (projr (AddTask ex_platform null_task High None ex_running)) ! 0) =
     [\<lparr>TaskToExecute = null_task, Counter = None\<rparr>]"
  by code_simp

text \<open>
  C10 as stated fails twice. \<^verbatim>\<open>AddTasks\<close> with an unknown priority does not return in a
  debug build: after \<^verbatim>\<open>counter->Add(numTasks)\<close> it ends in the assertion of line 581. And
  the counter can still reach a target: a counter at \<^verbatim>\<open>0xFFFFFFFF\<close> is at \<open>0\<close> after the
  \<^verbatim>\<open>Add(1)\<close> of \<^verbatim>\<open>AddTask\<close>, and a counter at \<open>0\<close> is at the target \<open>1\<close>.
\<close>

theorem unknown_priority_asserts_or_reaches_target:
  "isl (AddTasks (ex_platform\<lparr>asserts_enabled := True\<rparr>) 2 [ex_task, ex_task] (OtherPriority 7)
     (Some 5) ex_running) \<and>
   projl (AddTasks (ex_platform\<lparr>asserts_enabled := True\<rparr>) 2 [ex_task, ex_task] (OtherPriority 7)
     (Some 5) ex_running) = AssertionFailed ''Unknown task priority'' \<and>
   counter_value ex_wrapped 5 = - 1 \<and>
   \<not> isl (AddTask ex_platform ex_task (OtherPriority 7) (Some 5) ex_wrapped) \<and>
   counter_value (projr (AddTask ex_platform ex_task (OtherPriority 7) (Some 5) ex_wrapped)) 5 = 0 \<and>
   counter_value ex_running 5 = 0 \<and>
   counter_value (projr (AddTask ex_platform ex_task (OtherPriority 7) (Some 5) ex_running)) 5 = 1"
  by code_simp

text \<open>
  C10, amended. With a priority that is neither \<open>High\<close> nor \<open>Normal\<close> and a counter,
  \<^verbatim>\<open>AddTask\<close> (past its assertion on the task function) adds \<open>1\<close> to the counter and
  returns with every queue as it was and no push logged, so the call leaves no bundle for
  which the dispatch loop would decrement the counter; \<^verbatim>\<open>AddTasks\<close> adds \<^verbatim>\<open>numTasks\<close> and
  returns with every queue as it was when assertions are compiled out, and ends in the
  assertion \<open>Unknown task priority\<close>, after the add, when they are not.
\<close>

theorem unknown_priority_adds_without_push:
  assumes "arrays_allocated s" and "priority \<noteq> High" and "priority \<noteq> Normal"
  shows "(\<not> (asserts_enabled p \<and> Function task = NullFunction) \<longrightarrow>
      (\<exists>s'. AddTask p task priority (Some c) s = Inr s' \<and>
         counter_value s' c = counter_value s c + 1 \<and> m_tls s' = m_tls s \<and>
         events s' = events s @ CounterAdd c 1 #
           (if m_emptyQueueBehavior s = Sleep then [NotifyOne] else []))) \<and>
     (\<not> asserts_enabled p \<longrightarrow>
      (\<exists>s'. AddTasks p numTasks tasks priority (Some c) s = Inr s' \<and>
         counter_value s' c = counter_value s c + numTasks \<and> m_tls s' = m_tls s \<and>
         events s' = events s @ [CounterAdd c numTasks])) \<and>
     (asserts_enabled p \<longrightarrow>
      AddTasks p numTasks tasks priority (Some c) s = Inl (AssertionFailed ''Unknown task priority''))"
proof -
  from assms(1) have "length (m_threads s) = unat (m_numThreads s)"
    by (simp add: arrays_allocated_def)
  from GetCurrentThreadIndex_total [OF this] obtain ti where
    ti: "GetCurrentThreadIndex p s = Inr ti" by blast
  show ?thesis
    using assms(2,3) ti
    by (auto simp: AddTask_def AddTasks_def Let_def FTL_ASSERT_def)
qed

theorem unknown_priority_adds_without_push_witness:
  "arrays_allocated ex_running \<and>
   (\<exists>s'. AddTask ex_platform ex_task (OtherPriority 7) (Some 5) ex_running = Inr s' \<and>
      counter_value s' 5 = counter_value ex_running 5 + 1 \<and> m_tls s' = m_tls ex_running \<and>
      events s' = events ex_running @ [CounterAdd 5 1, NotifyOne]) \<and>
   (\<exists>s'. AddTasks ex_platform 2 [ex_task, ex_task] (OtherPriority 7) (Some 5) ex_running = Inr s' \<and>
      counter_value s' 5 = counter_value ex_running 5 + 2 \<and> m_tls s' = m_tls ex_running \<and>
      events s' = events ex_running @ [CounterAdd 5 2]) \<and>
   AddTasks (ex_platform\<lparr>asserts_enabled := True\<rparr>) 2 [ex_task, ex_task] (OtherPriority 7) (Some 5) ex_running
     = Inl (AssertionFailed ''Unknown task priority'')"
proof -
  have h: "arrays_allocated ex_running" "asserts_enabled (ex_platform\<lparr>asserts_enabled := True\<rparr>)"
    "\<not> asserts_enabled ex_platform" "m_emptyQueueBehavior ex_running = Sleep"
    by code_simp+
  show ?thesis
    using unknown_priority_adds_without_push
        [of ex_running "OtherPriority 7" ex_platform ex_task 5 2 "[ex_task, ex_task]"]
      unknown_priority_adds_without_push
        [of ex_running "OtherPriority 7" "ex_platform\<lparr>asserts_enabled := True\<rparr>" ex_task 5 2 "[ex_task, ex_task]"]
      h
    by simp
qed

subsection \<open>WaitForCounterInternal\<close>

lemma fold_max_ge: "a \<le> fold max xs (a::nat)"
proof (induction xs arbitrary: a)
  case Nil
  show ?case by simp
next
  case (Cons x xs)
  have "a \<le> max x a" by simp
  also have "max x a \<le> fold max xs (max x a)" by (rule Cons.IH)
  finally show ?case by simp
qed

lemma fold_max_member: "x \<in> set xs \<Longrightarrow> x \<le> fold max xs (a::nat)"
proof (induction xs arbitrary: a)
  case Nil
  then show ?case by simp
next
  case (Cons y ys)
  show ?case
  proof (cases "x = y")
    case True
    have "y \<le> max y a" by simp
    also have "max y a \<le> fold max ys (max y a)" by (rule fold_max_ge)
    finally show ?thesis using True by simp
  next
    case False
    with Cons.prems have "x \<in> set ys" by simp
    from Cons.IH [OF this] show ?thesis by simp
  qed
qed

lemma fresh_address_fresh: "fresh_address used \<notin> set used"
proof
  assume "fresh_address used \<in> set used"
  from fold_max_member [OF this, of 0] show False by (simp add: fresh_address_def)
qed

lemma drain_lock_Some:
  "drain_lock loads k = Some m \<Longrightarrow> k \<le> m \<and> loads m = 0 \<and> (\<forall>j. k \<le> j \<and> j < m \<longrightarrow> 0 < loads j)"
proof (induction loads k m rule: drain_lock.raw_induct [rotated, consumes 1])
  case (1 f loads k m)
  show ?case
  proof (cases "0 < loads k")
    case True
    with "1"(2) have "f loads (Suc k) = Some m" by simp
    from "1"(1) [OF this] have a: "Suc k \<le> m" "loads m = 0" "\<forall>j. Suc k \<le> j \<and> j < m \<longrightarrow> 0 < loads j"
      by simp_all
    have "0 < loads j" if "k \<le> j \<and> j < m" for j
      using that a(3) True by (cases "j = k") auto
    with a show ?thesis by simp
  next
    case False
    with "1"(2) have "m = k" by simp
    with False show ?thesis by (auto simp: word_gt_0)
  qed
qed

lemma drain_lock_returns:
  "k \<le> m \<Longrightarrow> loads m = 0 \<Longrightarrow> \<exists>n. drain_lock loads k = Some n"
proof (induction "m - k" arbitrary: k)
  case 0
  then have "k = m" by simp
  with "0.prems" show ?case by (subst drain_lock.simps) simp
next
  case (Suc d)
  then have "d = m - Suc k" "Suc k \<le> m" by simp_all
  from Suc.hyps(1) [OF this Suc.prems(2)] obtain n where "drain_lock loads (Suc k) = Some n" ..
  then show ?case by (subst drain_lock.simps) simp
qed


lemma removeAll_fresh [simp]: "removeAll (fresh_address used) used = used"
  using fresh_address_fresh [of used] by (simp add: removeAll_id)

lemma m_tls_update_tls_nth:
  "i < length (m_tls s) \<Longrightarrow> m_tls (update_tls i f s) ! i = f (m_tls s ! i)"
  by (simp add: update_tls_def)

lemma drain_lock_never:
  assumes "\<forall>k. loads k \<noteq> 0"
  shows "drain_lock loads 0 = None"
proof (cases "drain_lock loads 0")
  case None
  then show ?thesis .
next
  case (Some m)
  from drain_lock_Some [OF Some] assms show ?thesis by simp
qed

text \<open>
  C4. \<^verbatim>\<open>WaitForCounterInternal\<close> leaves in one of three ways. If the counter is at the
  target at entry, it spins on \<^verbatim>\<open>m_lock\<close> up to the first load that returns \<open>0\<close> and
  returns with the state as it was (no bundle, no switch); if no load returns \<open>0\<close> it does
  not return. Otherwise, called by a worker whose current fiber is \<open>f\<close>: if
  \<^verbatim>\<open>AddFiberToWaitingList\<close> returns true, it returns, the bundle it created is released
  again and nothing else has changed; if it returns false, the fiber switches to a new
  fiber, the bundle holds \<open>f\<close>, a false flag and spin count \<open>0\<close>, the worker's
  \<^verbatim>\<open>OldFiber\<close> is \<open>f\<close>, its \<^verbatim>\<open>OldFiberDestination\<close> is \<open>ToWaiting\<close>, its
  \<^verbatim>\<open>OldFiberStoredFlag\<close> is the flag of the bundle, and the bundle waits on the counter.
\<close>

theorem WaitForCounterInternal_three_ways:
  "(counter_value s c = v \<longrightarrow>
       ((\<exists>k. loads k = 0) \<longrightarrow>
          WaitForCounterInternal p c v pin loads already_done s = Some (Inr (Returned s))) \<and>
       ((\<forall>k. loads k \<noteq> 0) \<longrightarrow>
          WaitForCounterInternal p c v pin loads already_done s = None) \<and>
       (\<forall>r. WaitForCounterInternal p c v pin loads already_done s = Some r \<longrightarrow>
          r = Inr (Returned s) \<and>
          (\<exists>k. drain_lock loads 0 = Some k \<and> loads k = 0 \<and> (\<forall>j<k. 0 < loads j)))) \<and>
    (counter_value s c \<noteq> v \<and> GetCurrentThreadIndex p s = Inr ti \<and> unat ti < length (m_tls s) \<and>
     CurrentFiber (m_tls s ! unat ti) = Some f \<longrightarrow>
     (already_done \<longrightarrow>
       (\<exists>s'. WaitForCounterInternal p c v pin loads already_done s = Some (Inr (Returned s')) \<and>
          live_bundles s' = live_bundles s \<and> live_fibers s' = live_fibers s \<and>
          m_tls s' = m_tls s \<and> counter_waiters s' = counter_waiters s \<and> events s' = events s)) \<and>
     (\<not> already_done \<longrightarrow>
       (\<exists>s'. WaitForCounterInternal p c v pin loads already_done s =
               Some (Inr (Switched f (fresh_address (m_mainFiber s # live_fibers s)) s')) \<and>
          bundles s' (fresh_address (live_bundles s)) =
            \<lparr>Fiber = Some f, FiberIsSwitched = False, SpinCount = 0\<rparr> \<and>
          live_bundles s' = fresh_address (live_bundles s) # live_bundles s \<and>
          live_fibers s' = fresh_address (m_mainFiber s # live_fibers s) # live_fibers s \<and>
          OldFiber (m_tls s' ! unat ti) = Some f \<and>
          CurrentFiber (m_tls s' ! unat ti) = Some (fresh_address (m_mainFiber s # live_fibers s)) \<and>
          OldFiberDestination (m_tls s' ! unat ti) = ToWaiting \<and>
          OldFiberStoredFlag (m_tls s' ! unat ti) = Some (fresh_address (live_bundles s)) \<and>
          counter_waiters s' c = counter_waiters s c @
            [(fresh_address (live_bundles s), v,
              if pin \<or> f = m_mainFiber s then ti else kNoThreadPinning p)])))"
proof (intro conjI impI allI)
  assume "counter_value s c = v" and "\<exists>k. loads k = 0"
  then obtain k where "loads k = 0" by blast
  from drain_lock_returns [of 0 k loads] this obtain n where "drain_lock loads 0 = Some n" by auto
  with \<open>counter_value s c = v\<close>
  show "WaitForCounterInternal p c v pin loads already_done s = Some (Inr (Returned s))"
    by (simp add: WaitForCounterInternal_def)
next
  assume "counter_value s c = v" and "\<forall>k. loads k \<noteq> 0"
  with drain_lock_never [of loads]
  show "WaitForCounterInternal p c v pin loads already_done s = None"
    by (simp add: WaitForCounterInternal_def)
next
  fix r
  assume "counter_value s c = v" and r: "WaitForCounterInternal p c v pin loads already_done s = Some r"
  then show "r = Inr (Returned s)"
    by (auto simp: WaitForCounterInternal_def split: option.splits)
next
  fix r
  assume "counter_value s c = v" and r: "WaitForCounterInternal p c v pin loads already_done s = Some r"
  then obtain k where k: "drain_lock loads 0 = Some k"
    by (auto simp: WaitForCounterInternal_def split: option.splits)
  from drain_lock_Some [OF k] k
  show "\<exists>k. drain_lock loads 0 = Some k \<and> loads k = 0 \<and> (\<forall>j<k. 0 < loads j)" by auto
next
  assume asm: "counter_value s c \<noteq> v \<and> GetCurrentThreadIndex p s = Inr ti \<and>
     unat ti < length (m_tls s) \<and> CurrentFiber (m_tls s ! unat ti) = Some f"
  assume ad: already_done
  define s' where "s' = ReleaseFiberBundle (fresh_address (live_bundles s))
     (store_bundle (fresh_address (live_bundles s))
        \<lparr>Fiber = Some f, FiberIsSwitched = False, SpinCount = 0\<rparr>
        (s\<lparr>live_bundles := fresh_address (live_bundles s) # live_bundles s\<rparr>))"
  have "WaitForCounterInternal p c v pin loads already_done s = Some (Inr (Returned s'))"
    using asm ad
    by (simp add: WaitForCounterInternal_def Let_def CreateFiberBundle_def AddFiberToWaitingList_def s'_def
          choose_pinnedThreadIndex_def new_ReadyFiberBundle_def cong: sum.case_cong)
  moreover have "live_bundles s' = live_bundles s \<and> live_fibers s' = live_fibers s \<and>
          m_tls s' = m_tls s \<and> counter_waiters s' = counter_waiters s \<and> events s' = events s"
    by (simp add: s'_def ReleaseFiberBundle_def store_bundle_def)
  ultimately show "\<exists>s'. WaitForCounterInternal p c v pin loads already_done s = Some (Inr (Returned s')) \<and>
          live_bundles s' = live_bundles s \<and> live_fibers s' = live_fibers s \<and>
          m_tls s' = m_tls s \<and> counter_waiters s' = counter_waiters s \<and> events s' = events s"
    by blast
next
  assume asm: "counter_value s c \<noteq> v \<and> GetCurrentThreadIndex p s = Inr ti \<and>
     unat ti < length (m_tls s) \<and> CurrentFiber (m_tls s ! unat ti) = Some f"
  assume nd: "\<not> already_done"
  define b where "b = fresh_address (live_bundles s)"
  define g where "g = fresh_address (m_mainFiber s # live_fibers s)"
  define pinned where "pinned = (if pin \<or> f = m_mainFiber s then ti else kNoThreadPinning p)"
  define s3 where "s3 = (store_bundle b \<lparr>Fiber = Some f, FiberIsSwitched = False, SpinCount = 0\<rparr>
        (s\<lparr>live_bundles := b # live_bundles s\<rparr>))\<lparr>counter_waiters := (counter_waiters s)
              (c := counter_waiters s c @ [(b, v, pinned)])\<rparr>"
  define s5 where "s5 = update_tls (unat ti)
       (\<lambda>tls. tls\<lparr>OldFiber := Some f, CurrentFiber := Some g,
          OldFiberDestination := ToWaiting, OldFiberStoredFlag := Some b\<rparr>)
       (s3\<lparr>live_fibers := g # live_fibers s3\<rparr>)"
  define s6 where "s6 = (if has_OnFiberDetached (m_callbacks s5)
                         then emit (OnFiberDetached (Some f) True) s5 else s5)"
  have "WaitForCounterInternal p c v pin loads already_done s = Some (Inr (Switched f g s6))"
    using asm nd
    by (simp add: WaitForCounterInternal_def Let_def CreateFiberBundle_def AddFiberToWaitingList_def
          GetNextFreeFiber_def store_bundle_def s3_def s5_def s6_def b_def g_def pinned_def
          choose_pinnedThreadIndex_def new_ReadyFiberBundle_def switch_to_free_fiber_def
          cong: sum.case_cong)
  moreover have "bundles s6 b = \<lparr>Fiber = Some f, FiberIsSwitched = False, SpinCount = 0\<rparr> \<and>
          live_bundles s6 = b # live_bundles s \<and> live_fibers s6 = g # live_fibers s \<and>
          counter_waiters s6 c = counter_waiters s c @ [(b, v, pinned)]"
    by (simp add: s6_def s5_def s3_def emit_def update_tls_def store_bundle_def)
  moreover have "m_tls s6 ! unat ti = (m_tls s ! unat ti)\<lparr>OldFiber := Some f, CurrentFiber := Some g,
          OldFiberDestination := ToWaiting, OldFiberStoredFlag := Some b\<rparr>"
    using asm by (simp add: s6_def s5_def s3_def emit_def update_tls_def store_bundle_def)
  ultimately show "\<exists>s'. WaitForCounterInternal p c v pin loads already_done s =
               Some (Inr (Switched f (fresh_address (m_mainFiber s # live_fibers s)) s')) \<and>
          bundles s' (fresh_address (live_bundles s)) =
            \<lparr>Fiber = Some f, FiberIsSwitched = False, SpinCount = 0\<rparr> \<and>
          live_bundles s' = fresh_address (live_bundles s) # live_bundles s \<and>
          live_fibers s' = fresh_address (m_mainFiber s # live_fibers s) # live_fibers s \<and>
          OldFiber (m_tls s' ! unat ti) = Some f \<and>
          CurrentFiber (m_tls s' ! unat ti) = Some (fresh_address (m_mainFiber s # live_fibers s)) \<and>
          OldFiberDestination (m_tls s' ! unat ti) = ToWaiting \<and>
          OldFiberStoredFlag (m_tls s' ! unat ti) = Some (fresh_address (live_bundles s)) \<and>
          counter_waiters s' c = counter_waiters s c @
            [(fresh_address (live_bundles s), v,
              if pin \<or> f = m_mainFiber s then ti else kNoThreadPinning p)]"
    by (intro exI [of _ s6]) (simp add: b_def g_def pinned_def)
qed

theorem WaitForCounterInternal_three_ways_witness:
  "counter_value ex_running 5 = 0 \<and> ex_loads 2 = 0 \<and>
   WaitForCounterInternal ex_platform 5 0 False ex_loads False ex_running =
     Some (Inr (Returned ex_running)) \<and>
   (\<exists>k. drain_lock ex_loads 0 = Some k \<and> ex_loads k = 0) \<and>
   counter_value ex_counting 5 = 2 \<and> GetCurrentThreadIndex ex_platform ex_counting = Inr 0 \<and>
   CurrentFiber (m_tls ex_counting ! 0) = Some 1 \<and>
   (\<exists>s'. WaitForCounterInternal ex_platform 5 0 False ex_loads True ex_counting =
            Some (Inr (Returned s')) \<and>
      live_bundles s' = live_bundles ex_counting \<and> m_tls s' = m_tls ex_counting) \<and>
   (\<exists>s'. WaitForCounterInternal ex_platform 5 0 False ex_loads False ex_counting =
            Some (Inr (Switched 1 3 s')) \<and>
      bundles s' 1 = \<lparr>Fiber = Some 1, FiberIsSwitched = False, SpinCount = 0\<rparr> \<and>
      live_bundles s' = [1] \<and> live_fibers s' = [3, 1, 2] \<and>
      OldFiber (m_tls s' ! 0) = Some 1 \<and> CurrentFiber (m_tls s' ! 0) = Some 3 \<and>
      OldFiberDestination (m_tls s' ! 0) = ToWaiting \<and>
      OldFiberStoredFlag (m_tls s' ! 0) = Some 1 \<and>
      counter_waiters s' 5 = [(1, 0, 0)])"
proof -
  have h: "counter_value ex_running 5 = 0" "ex_loads 2 = 0"
    "counter_value ex_counting 5 = 2" "GetCurrentThreadIndex ex_platform ex_counting = Inr 0"
    "CurrentFiber (m_tls ex_counting ! 0) = Some 1" "length (m_tls ex_counting) = 2"
    "live_bundles ex_counting = []" "live_fibers ex_counting = [1, 2]" "m_mainFiber ex_counting = 1"
    "counter_waiters ex_counting 5 = []"
    by code_simp+
  have e: "\<exists>k. ex_loads k = 0" using h(2) by blast
  have f: "fresh_address [] = 1" "fresh_address [1, 1, 2] = 3"
    by (simp_all add: fresh_address_def)
  note fast = WaitForCounterInternal_three_ways
         [of ex_running 5 0 ex_loads ex_platform False False 0 1, THEN conjunct1, THEN mp, OF h(1)]
  note 1 = fast [THEN conjunct1, THEN mp, OF e]
  from fast [THEN conjunct2, THEN conjunct2, THEN spec, THEN mp, OF 1]
  have 2: "\<exists>k. drain_lock ex_loads 0 = Some k \<and> ex_loads k = 0" by blast
  have pre: "counter_value ex_counting 5 \<noteq> 0 \<and> GetCurrentThreadIndex ex_platform ex_counting = Inr 0 \<and>
     unat (0 :: u32) < length (m_tls ex_counting) \<and>
     CurrentFiber (m_tls ex_counting ! unat (0 :: u32)) = Some 1"
    using h by simp
  from WaitForCounterInternal_three_ways
         [of ex_counting 5 0 ex_loads ex_platform False True 0 1, THEN conjunct2, THEN mp, OF pre,
          THEN conjunct1]
  have 3: "\<exists>s'. WaitForCounterInternal ex_platform 5 0 False ex_loads True ex_counting =
            Some (Inr (Returned s')) \<and>
      live_bundles s' = live_bundles ex_counting \<and> m_tls s' = m_tls ex_counting"
    by simp blast
  from WaitForCounterInternal_three_ways
         [of ex_counting 5 0 ex_loads ex_platform False False 0 1, THEN conjunct2, THEN mp, OF pre,
          THEN conjunct2]
  have 4: "\<exists>s'. WaitForCounterInternal ex_platform 5 0 False ex_loads False ex_counting =
            Some (Inr (Switched 1 3 s')) \<and>
      bundles s' 1 = \<lparr>Fiber = Some 1, FiberIsSwitched = False, SpinCount = 0\<rparr> \<and>
      live_bundles s' = [1] \<and> live_fibers s' = [3, 1, 2] \<and>
      OldFiber (m_tls s' ! 0) = Some 1 \<and> CurrentFiber (m_tls s' ! 0) = Some 3 \<and>
      OldFiberDestination (m_tls s' ! 0) = ToWaiting \<and>
      OldFiberStoredFlag (m_tls s' ! 0) = Some 1 \<and>
      counter_waiters s' 5 = [(1, 0, 0)]"
    using h f by simp
  from 1 2 3 4 h show ?thesis by simp
qed

subsection \<open>TaskIsReadyToExecute and GetNextHiPriTask\<close>

lemma TaskIsReadyToExecute_True:
  "TaskIsReadyToExecute t h = (True, h') \<Longrightarrow> passed_test t h'"
  by (auto simp: TaskIsReadyToExecute_def fetch_sub_SpinCount_def passed_test_def Let_def
        split: if_splits)

lemma TaskIsReadyToExecute_flags:
  "TaskIsReadyToExecute t h = (r, h') \<Longrightarrow> FiberIsSwitched (h' b) = FiberIsSwitched (h b)"
  by (auto simp: TaskIsReadyToExecute_def fetch_sub_SpinCount_def Let_def split: if_splits)

lemma HiPri_pop_loop_True:
  "HiPri_pop_loop q nt buf h = (True, t, buf', q', h') \<Longrightarrow> passed_test t h'"
proof (induction q arbitrary: nt buf h)
  case Nil
  then show ?case by simp
next
  case (Cons x q)
  obtain r h1 where t: "TaskIsReadyToExecute x h = (r, h1)" by (cases "TaskIsReadyToExecute x h")
  show ?case
  proof (cases r)
    case True
    with Cons.prems t TaskIsReadyToExecute_True [of x h h1] show ?thesis by simp
  next
    case False
    with Cons.prems t have "HiPri_pop_loop q x (buf @ [x]) h1 = (True, t, buf', q', h')" by simp
    from Cons.IH [OF this] show ?thesis .
  qed
qed

lemma HiPri_pop_loop_flags:
  "HiPri_pop_loop q nt buf h = (r, t, buf', q', h') \<Longrightarrow> FiberIsSwitched (h' b) = FiberIsSwitched (h b)"
proof (induction q arbitrary: nt buf h)
  case Nil
  then show ?case by simp
next
  case (Cons x q)
  obtain r1 h1 where t: "TaskIsReadyToExecute x h = (r1, h1)" by (cases "TaskIsReadyToExecute x h")
  show ?case
  proof (cases r1)
    case True
    with Cons.prems t TaskIsReadyToExecute_flags [OF t] show ?thesis by simp
  next
    case False
    with Cons.prems t have "HiPri_pop_loop q x (buf @ [x]) h1 = (r, t, buf', q', h')" by simp
    from Cons.IH [OF this] TaskIsReadyToExecute_flags [OF t] show ?thesis by simp
  qed
qed

lemma HiPri_steal_loop_True:
  "HiPri_steal_loop q st nt buf h = (True, st', t, buf', q', h') \<Longrightarrow> passed_test t h'"
proof (induction q arbitrary: st nt buf h)
  case Nil
  then show ?case by simp
next
  case (Cons x q)
  obtain r h1 where t: "TaskIsReadyToExecute x h = (r, h1)" by (cases "TaskIsReadyToExecute x h")
  show ?case
  proof (cases r)
    case True
    with Cons.prems t TaskIsReadyToExecute_True [of x h h1] show ?thesis by simp
  next
    case False
    with Cons.prems t have "HiPri_steal_loop q True x (buf @ [x]) h1 = (True, st', t, buf', q', h')" by simp
    from Cons.IH [OF this] show ?thesis .
  qed
qed

lemma HiPri_steal_loop_flags:
  "HiPri_steal_loop q st nt buf h = (r, st', t, buf', q', h') \<Longrightarrow> FiberIsSwitched (h' b) = FiberIsSwitched (h b)"
proof (induction q arbitrary: st nt buf h)
  case Nil
  then show ?case by simp
next
  case (Cons x q)
  obtain r1 h1 where t: "TaskIsReadyToExecute x h = (r1, h1)" by (cases "TaskIsReadyToExecute x h")
  show ?case
  proof (cases r1)
    case True
    with Cons.prems t TaskIsReadyToExecute_flags [OF t] show ?thesis by simp
  next
    case False
    with Cons.prems t have "HiPri_steal_loop q True x (buf @ [x]) h1 = (r, st', t, buf', q', h')" by simp
    from Cons.IH [OF this] TaskIsReadyToExecute_flags [OF t] show ?thesis by simp
  qed
qed

lemma HiPri_steal_from_True:
  "HiPri_steal_from cur v nt buf s = (True, t, buf', s') \<Longrightarrow> passed_test t (bundles s')"
  by (auto simp: HiPri_steal_from_def Let_def split: prod.splits if_splits
        dest: HiPri_steal_loop_True)

lemma HiPri_steal_from_flags:
  "HiPri_steal_from cur v nt buf s = (r, t, buf', s') \<Longrightarrow>
   FiberIsSwitched (bundles s' b) = FiberIsSwitched (bundles s b)"
proof -
  assume a: "HiPri_steal_from cur v nt buf s = (r, t, buf', s')"
  obtain found stolen nt1 buf1 tf h1 where
    sl: "HiPri_steal_loop (rev (HiPriTaskQueue (m_tls s ! unat v))) False nt buf (bundles s)
           = (found, stolen, nt1, buf1, tf, h1)"
    by (cases "HiPri_steal_loop (rev (HiPriTaskQueue (m_tls s ! unat v))) False nt buf (bundles s)")
  from a sl have "bundles s' = h1"
    by (auto simp: HiPri_steal_from_def Let_def split: if_splits)
  with HiPri_steal_loop_flags [OF sl] show ?thesis by simp
qed

lemma HiPri_steal_from_shape:
  "HiPri_steal_from cur v nt buf s = (r, t, buf', s') \<Longrightarrow>
   m_numThreads s' = m_numThreads s \<and> length (m_tls s') = length (m_tls s)"
  by (auto simp: HiPri_steal_from_def Let_def split: prod.splits if_splits)

lemma HiPri_steal_threads_result:
  "HiPri_steal_threads cur threadIndex i nt buf s = Inr (r, t, buf', s') \<Longrightarrow>
   (r \<longrightarrow> passed_test t (bundles s')) \<and>
   (\<forall>b. FiberIsSwitched (bundles s' b) = FiberIsSwitched (bundles s b))"
proof (induction "unat (m_numThreads s) - i" arbitrary: i nt buf s)
  case 0
  then show ?case
    by (simp add: HiPri_steal_threads.simps [of cur threadIndex i nt buf s])
next
  case (Suc k)
  from Suc.hyps(2) have lt: "i < unat (m_numThreads s)" by simp
  define v where "v = (threadIndex + word_of_nat i) mod m_numThreads s"
  show ?case
  proof (cases "v = cur")
    case True
    with Suc.prems lt have r: "HiPri_steal_threads cur threadIndex (Suc i) nt buf s = Inr (r, t, buf', s')"
      by (simp add: HiPri_steal_threads.simps [of cur threadIndex i nt buf s] v_def)
    from Suc.hyps(2) have "k = unat (m_numThreads s) - Suc i" by simp
    from Suc.hyps(1) [OF this r] show ?thesis .
  next
    case False
    note ne = this
    with Suc.prems lt have inb: "unat v < length (m_tls s)"
      by (simp add: HiPri_steal_threads.simps [of cur threadIndex i nt buf s] v_def Let_def split: if_splits)
    obtain found nt1 buf1 s1 where sf: "HiPri_steal_from cur v nt buf s = (found, nt1, buf1, s1)"
      by (cases "HiPri_steal_from cur v nt buf s")
    have eq: "HiPri_steal_threads cur threadIndex i nt buf s =
       (if found then Inr (True, nt1, buf1, s1) else HiPri_steal_threads cur threadIndex (Suc i) nt1 buf1 s1)"
      using lt ne inb sf
      by (simp add: HiPri_steal_threads.simps [of cur threadIndex i nt buf s] v_def [symmetric] Let_def)
    show ?thesis
    proof (cases found)
      case True
      with eq Suc.prems have "r" "t = nt1" "s' = s1" by simp_all
      with HiPri_steal_from_True [of cur v nt buf s nt1 buf1 s1] HiPri_steal_from_flags [OF sf] sf True
      show ?thesis by simp
    next
      case False
      with eq Suc.prems have r: "HiPri_steal_threads cur threadIndex (Suc i) nt1 buf1 s1 = Inr (r, t, buf', s')"
        by simp
      from Suc.hyps(2) HiPri_steal_from_shape [OF sf] have "k = unat (m_numThreads s1) - Suc i" by simp
      from Suc.hyps(1) [OF this r] HiPri_steal_from_flags [OF sf] show ?thesis by simp
    qed
  qed
qed

lemma bundles_push_all [simp]:
  "bundles (foldl (\<lambda>s' b. push_at cur q b s') s xs) = bundles s"
  by (induction xs arbitrary: s) (simp_all add: push_at_def emit_def)

lemma HiPri_cleanup_bundles:
  "HiPri_cleanup cur r nt buf s = (r', t, buf', s') \<Longrightarrow> r' = r \<and> t = nt \<and> bundles s' = bundles s"
  by (auto simp: HiPri_cleanup_def Let_def emit_def split: if_splits)

lemma GetNextHiPriTask_result:
  assumes "GetNextHiPriTask p nt buf s = Inr (r, t, buf', s')"
  shows "(r \<longrightarrow> passed_test t (bundles s')) \<and>
         (\<forall>b. FiberIsSwitched (bundles s' b) = FiberIsSwitched (bundles s b))"
proof -
  from assms obtain cti where cti: "GetCurrentThreadIndex p s = Inr cti"
    and inb: "unat cti < length (m_tls s)"
    by (auto simp: GetNextHiPriTask_def Let_def split: sum.splits if_splits)
  obtain found nt1 buf1 q h1 where
    pl: "HiPri_pop_loop (HiPriTaskQueue (m_tls s ! unat cti)) nt buf (bundles s) = (found, nt1, buf1, q, h1)"
    by (cases "HiPri_pop_loop (HiPriTaskQueue (m_tls s ! unat cti)) nt buf (bundles s)")
  define s1 where "s1 = s\<lparr>bundles := h1,
      m_tls := (m_tls s)[unat cti := (m_tls s ! unat cti)\<lparr>HiPriTaskQueue := q\<rparr>]\<rparr>"
  have b1: "bundles s1 = h1" by (simp add: s1_def)
  have eq: "GetNextHiPriTask p nt buf s =
      (if found then Inr (HiPri_cleanup (unat cti) True nt1 buf1 s1)
       else (case HiPri_steal_threads cti (HiPriLastSuccessfulSteal (m_tls s1 ! unat cti)) 0 nt1 buf1 s1 of
               Inl e \<Rightarrow> Inl e
             | Inr (result, nextTask2, taskBuffer2, s2) \<Rightarrow>
                 Inr (HiPri_cleanup (unat cti) result nextTask2 taskBuffer2 s2)))"
    using cti inb pl by (simp add: GetNextHiPriTask_def Let_def s1_def)
  show ?thesis
  proof (cases found)
    case True
    with eq assms have c: "HiPri_cleanup (unat cti) True nt1 buf1 s1 = (r, t, buf', s')" by simp
    from HiPri_cleanup_bundles [OF c] HiPri_pop_loop_True [of _ nt buf "bundles s" nt1 buf1 q h1]
      HiPri_pop_loop_flags [OF pl] pl True b1
    show ?thesis by simp
  next
    case False
    with eq assms obtain r2 nt2 buf2 s2 where
      st: "HiPri_steal_threads cti (HiPriLastSuccessfulSteal (m_tls s1 ! unat cti)) 0 nt1 buf1 s1
             = Inr (r2, nt2, buf2, s2)"
      and c: "HiPri_cleanup (unat cti) r2 nt2 buf2 s2 = (r, t, buf', s')"
      by (auto split: sum.splits)
    from HiPri_cleanup_bundles [OF c] HiPri_steal_threads_result [OF st] HiPri_pop_loop_flags [OF pl] b1
    show ?thesis by simp
  qed
qed

text \<open>
  C3 as stated fails: line 655 is a conjunction. A ready-fiber dummy whose spin count is
  \<open>0\<close> but whose flag is still false is not ready, and neither is one whose flag is set
  but whose spin count is \<open>15\<close>.
\<close>

theorem TaskIsReadyToExecute_not_or:
  "Function (TaskToExecute (dummy_task 1)) = ReadyFiberDummyTask \<and>
   \<not> FiberIsSwitched (bundles ex_pinned 1) \<and> sint (SpinCount (bundles ex_pinned 1)) \<le> 0 \<and>
   \<not> fst (TaskIsReadyToExecute (dummy_task 1) (bundles ex_pinned)) \<and>
   \<not> fst (TaskIsReadyToExecute (dummy_task 1)
      ((bundles ex_pinned)(1 := \<lparr>Fiber = Some 3, FiberIsSwitched = True, SpinCount = 15\<rparr>)))"
  by code_simp

text \<open>
  C3, amended. \<^verbatim>\<open>TaskIsReadyToExecute\<close> returns true, and changes nothing, for every bundle
  whose function is not \<^verbatim>\<open>ReadyFiberDummyTask\<close>. For a ready-fiber dummy it returns true
  exactly when the flag \<^verbatim>\<open>FiberIsSwitched\<close> of its bundle is set and the spin count it
  reads is at most \<open>0\<close>; it takes one off the spin count when the flag is set, and leaves
  the bundle alone when it is not. \<^verbatim>\<open>GetNextHiPriTask\<close> never changes a flag, and an entry
  it returns has passed this test: if it is a ready-fiber dummy, the flag of its bundle was
  set at the call and is set at the return, and the spin count was at most \<open>0\<close> before the
  test took one off.
\<close>

theorem TaskIsReadyToExecute_switched_and_decayed:
  "(Function (TaskToExecute bundle) \<noteq> ReadyFiberDummyTask \<longrightarrow>
      TaskIsReadyToExecute bundle h = (True, h)) \<and>
   (Function (TaskToExecute bundle) = ReadyFiberDummyTask \<longrightarrow>
      (fst (TaskIsReadyToExecute bundle h) \<longleftrightarrow>
         FiberIsSwitched (h (ArgData (TaskToExecute bundle))) \<and>
         sint (SpinCount (h (ArgData (TaskToExecute bundle)))) \<le> 0) \<and>
      snd (TaskIsReadyToExecute bundle h) =
        (if FiberIsSwitched (h (ArgData (TaskToExecute bundle)))
         then h(ArgData (TaskToExecute bundle) :=
                (h (ArgData (TaskToExecute bundle)))
                  \<lparr>SpinCount := SpinCount (h (ArgData (TaskToExecute bundle))) - 1\<rparr>)
         else h)) \<and>
   (GetNextHiPriTask p nextTask taskBuffer s = Inr (True, t, taskBuffer', s') \<and>
    Function (TaskToExecute t) = ReadyFiberDummyTask \<longrightarrow>
      FiberIsSwitched (bundles s (ArgData (TaskToExecute t))) \<and>
      FiberIsSwitched (bundles s' (ArgData (TaskToExecute t))) \<and>
      sint (SpinCount (bundles s' (ArgData (TaskToExecute t))) + 1) \<le> 0)"
proof (intro conjI impI)
  assume a: "GetNextHiPriTask p nextTask taskBuffer s = Inr (True, t, taskBuffer', s') \<and>
    Function (TaskToExecute t) = ReadyFiberDummyTask"
  then have r: "GetNextHiPriTask p nextTask taskBuffer s = Inr (True, t, taskBuffer', s')" by simp
  from GetNextHiPriTask_result [OF r] have pt: "passed_test t (bundles s')"
    and fl: "\<And>b. FiberIsSwitched (bundles s' b) = FiberIsSwitched (bundles s b)"
    by simp_all
  from pt a have q: "FiberIsSwitched (bundles s' (ArgData (TaskToExecute t)))"
    "sint (SpinCount (bundles s' (ArgData (TaskToExecute t))) + 1) \<le> 0"
    by (simp_all add: passed_test_def)
  from q(1) show "FiberIsSwitched (bundles s (ArgData (TaskToExecute t)))" by (simp add: fl)
  from q show "FiberIsSwitched (bundles s' (ArgData (TaskToExecute t)))"
    and "sint (SpinCount (bundles s' (ArgData (TaskToExecute t))) + 1) \<le> 0"
    by simp_all
qed (auto simp: TaskIsReadyToExecute_def fetch_sub_SpinCount_def Let_def)

theorem TaskIsReadyToExecute_switched_and_decayed_witness:
  "Function (TaskToExecute (mk_bundle None ex_task)) \<noteq> ReadyFiberDummyTask \<and>
   TaskIsReadyToExecute (mk_bundle None ex_task) (bundles ex_ready) = (True, bundles ex_ready) \<and>
   Function (TaskToExecute (dummy_task 1)) = ReadyFiberDummyTask \<and>
   fst (TaskIsReadyToExecute (dummy_task 1) (bundles ex_ready)) \<and>
   SpinCount (snd (TaskIsReadyToExecute (dummy_task 1) (bundles ex_ready)) 1) = - 1 \<and>
   fst (projr (GetNextHiPriTask ex_platform empty_TaskBundle [] ex_ready)) \<and>
   fst (snd (projr (GetNextHiPriTask ex_platform empty_TaskBundle [] ex_ready))) = dummy_task 1 \<and>
   FiberIsSwitched (bundles ex_ready 1) \<and>
   sint (SpinCount (bundles (snd (snd (snd (projr
     (GetNextHiPriTask ex_platform empty_TaskBundle [] ex_ready))))) 1) + 1) \<le> 0"
proof -
  let ?X = "GetNextHiPriTask ex_platform empty_TaskBundle [] ex_ready"
  have a: "\<not> isl ?X" "fst (projr ?X)" "fst (snd (projr ?X)) = dummy_task 1"
    by code_simp+
  have b: "Function (TaskToExecute (mk_bundle None ex_task)) \<noteq> ReadyFiberDummyTask"
    "Function (TaskToExecute (dummy_task 1)) = ReadyFiberDummyTask"
    "ArgData (TaskToExecute (dummy_task 1)) = 1"
    "FiberIsSwitched (bundles ex_ready 1)" "SpinCount (bundles ex_ready 1) = 0"
    by code_simp+
  from a(1) have "?X = Inr (projr ?X)" by simp
  also have "projr ?X = (True, dummy_task 1, fst (snd (snd (projr ?X))), snd (snd (snd (projr ?X))))"
    using a(2,3) by (simp add: prod_eq_iff)
  finally have X: "?X = Inr (True, dummy_task 1, fst (snd (snd (projr ?X))), snd (snd (snd (projr ?X))))" .
  note 1 = TaskIsReadyToExecute_switched_and_decayed
    [of "mk_bundle None ex_task" "bundles ex_ready", THEN conjunct1, THEN mp, OF b(1)]
  note 2 = TaskIsReadyToExecute_switched_and_decayed
    [of "dummy_task 1" "bundles ex_ready", THEN conjunct2, THEN conjunct1, THEN mp, OF b(2)]
  note 3 = TaskIsReadyToExecute_switched_and_decayed
    [of _ _ ex_platform empty_TaskBundle "[]" ex_ready "dummy_task 1"
       "fst (snd (snd (projr ?X)))" "snd (snd (snd (projr ?X)))",
     THEN conjunct2, THEN conjunct2, THEN mp, OF conjI, OF X b(2)]
  from 2 b have 4: "fst (TaskIsReadyToExecute (dummy_task 1) (bundles ex_ready))"
    "SpinCount (snd (TaskIsReadyToExecute (dummy_task 1) (bundles ex_ready)) 1) = - 1"
    by simp_all
  from 3 b(3) have 5: "sint (SpinCount (bundles (snd (snd (snd (projr ?X)))) 1) + 1) \<le> 0"
    by simp
  from 1 4 5 a b show ?thesis by simp
qed

subsection \<open>The scan of the pinned list\<close>

lemma fetch_sub_SpinCount_other:
  "b' \<noteq> b \<Longrightarrow> snd (fetch_sub_SpinCount b h) b' = h b'"
  by (simp add: fetch_sub_SpinCount_def)

lemma fetch_sub_SpinCount_flag [simp]:
  "FiberIsSwitched (snd (fetch_sub_SpinCount b h) b') = FiberIsSwitched (h b')"
  by (simp add: fetch_sub_SpinCount_def)

lemma fetch_sub_SpinCount_Fiber [simp]:
  "Fiber (snd (fetch_sub_SpinCount b h) b') = Fiber (h b')"
  by (simp add: fetch_sub_SpinCount_def)

lemma skip_entries_Fiber [simp]: "Fiber (skip_entries xs h b) = Fiber (h b)"
  by (induction xs arbitrary: h) (simp_all add: skip_entries_def)

lemma skip_entries_flag [simp]: "FiberIsSwitched (skip_entries xs h b) = FiberIsSwitched (h b)"
  by (induction xs arbitrary: h) (simp_all add: skip_entries_def)



lemma skip_entries_snoc:
  "skip_entries (xs @ [b]) h = snd (fetch_sub_SpinCount b (skip_entries xs h))"
  by (simp add: skip_entries_def)

lemma skip_entries_other:
  "b \<notin> set xs \<Longrightarrow> skip_entries xs h b = h b"
  by (induction xs arbitrary: h) (auto simp: skip_entries_def fetch_sub_SpinCount_def)


lemma bundles_emit [simp]: "bundles (emit e s) = bundles s"
  by (simp add: emit_def)

lemma m_quit_emit [simp]: "m_quit (emit e s) = m_quit s"
  by (simp add: emit_def)




subsection \<open>The empty-queue behaviour of the dispatch loop\<close>

lemma small_of_nat: "k < 25 \<Longrightarrow> (word_of_nat k :: u32) < 25"
proof -
  assume k: "k < 25"
  then have "unat (word_of_nat k :: u32) = k" by (simp add: unat_of_nat)
  with k show ?thesis by (simp add: word_less_nat_alt)
qed

lemma EmptyQueue_Sleep_below:
  assumes "ti < length (m_tls s)" and "m_emptyQueueBehavior s = Sleep"
    and "FailedQueuePopAttempts (m_tls s ! ti) + 1 < kFailedPopAttemptsHeuristic"
  shows "EmptyQueue ti s =
     update_tls ti (\<lambda>tls. tls\<lparr>FailedQueuePopAttempts := FailedQueuePopAttempts tls + 1\<rparr>) s"
  using assms by (simp add: EmptyQueue_def Let_def update_tls_def)

lemma EmptyQueue_idle_passes:
  assumes "ti < length (m_tls s)" and "m_emptyQueueBehavior s = Sleep"
    and "FailedQueuePopAttempts (m_tls s ! ti) = 0" and "k < 25"
  shows "events ((EmptyQueue ti ^^ k) s) = events s \<and>
     FailedQueuePopAttempts (m_tls ((EmptyQueue ti ^^ k) s) ! ti) = word_of_nat k \<and>
     ti < length (m_tls ((EmptyQueue ti ^^ k) s)) \<and>
     m_emptyQueueBehavior ((EmptyQueue ti ^^ k) s) = Sleep \<and>
     PinnedReadyFibers (m_tls ((EmptyQueue ti ^^ k) s) ! ti) = PinnedReadyFibers (m_tls s ! ti)"
  using assms(4)
proof (induction k)
  case 0
  with assms show ?case by simp
next
  case (Suc k)
  define s1 where "s1 = (EmptyQueue ti ^^ k) s"
  from Suc have ih: "events s1 = events s" "FailedQueuePopAttempts (m_tls s1 ! ti) = word_of_nat k"
    "ti < length (m_tls s1)" "m_emptyQueueBehavior s1 = Sleep"
    "PinnedReadyFibers (m_tls s1 ! ti) = PinnedReadyFibers (m_tls s ! ti)"
    by (simp_all add: s1_def)
  from Suc.prems have "(word_of_nat (Suc k) :: u32) < 25" by (rule small_of_nat)
  then have "FailedQueuePopAttempts (m_tls s1 ! ti) + 1 < kFailedPopAttemptsHeuristic"
    by (simp add: ih kFailedPopAttemptsHeuristic_def add.commute)
  from EmptyQueue_Sleep_below [OF ih(3,4) this] ih
  show ?case by (simp add: s1_def [symmetric] update_tls_def)
qed

text \<open>
  C6 as stated fails: the failed attempts that precede the wait need not be consecutive.
  In \<open>ex_tired\<close> worker 1 has counted 24 failed passes. Its next pass finds fiber \<open>3\<close> in
  the pinned list and switches to it, which leaves the count at 24: line 249 is reached
  only by the fiber that switched away, and \<^verbatim>\<open>CleanUpOldFiber\<close> deletes that fiber. When
  the task of fiber \<open>3\<close> has returned, the next pass finds nothing, counts 25, and waits on
  the condition variable: one failed attempt after a pass that found a ready fiber.
\<close>

theorem blocks_after_one_failed_attempt:
  "FailedQueuePopAttempts (m_tls ex_tired ! 1) = 24 \<and>
   PinnedReadyFibers (m_tls ex_tired ! 1) = [1] \<and> FiberIsSwitched (bundles ex_tired 1) \<and>
   \<not> isl (DispatchIteration worker1 1 ex_tired) \<and>
   (case projr (DispatchIteration worker1 1 ex_tired) of
      SwitchedToWaitingFiber old w s \<Rightarrow> old = 2 \<and> w = 3 | _ \<Rightarrow> False) \<and>
   FailedQueuePopAttempts (m_tls ex_switched ! 1) = 24 \<and>
   OldFiberDestination (m_tls ex_switched ! 1) = ToPool \<and>
   \<not> isl (WaitForCounterInternal_resumed worker1 ex_switched) \<and>
   FailedQueuePopAttempts (m_tls ex_resumed ! 1) = 24 \<and>
   CurrentFiber (m_tls ex_resumed ! 1) = Some 3 \<and> live_fibers ex_resumed = [1, 3] \<and>
   TaskReturned worker1 (\<lambda>c. Inr) (mk_bundle None ex_task) ex_resumed = Inr (1, ex_resumed) \<and>
   \<not> isl (DispatchIteration worker1 1 ex_resumed) \<and>
   (case projr (DispatchIteration worker1 1 ex_resumed) of
      LoopContinues s \<Rightarrow> True | _ \<Rightarrow> False) \<and>
   new_events ex_resumed ex_blocked =
     [Lock (PinnedReadyFibersLock 1), Unlock (PinnedReadyFibersLock 1),
      Lock ThreadSleepLock, Lock (PinnedReadyFibersLock 1), Unlock (PinnedReadyFibersLock 1),
      CVWait, Unlock ThreadSleepLock]"
proof -
  have "GetCurrentThreadIndex worker1 ex_resumed = Inr 1" by code_simp
  then have t: "TaskReturned worker1 (\<lambda>c. Inr) (mk_bundle None ex_task) ex_resumed = Inr (1, ex_resumed)"
    by (simp add: TaskReturned_def mk_bundle_def)
  have "FailedQueuePopAttempts (m_tls ex_tired ! 1) = 24 \<and>
   PinnedReadyFibers (m_tls ex_tired ! 1) = [1] \<and> FiberIsSwitched (bundles ex_tired 1) \<and>
   \<not> isl (DispatchIteration worker1 1 ex_tired) \<and>
   (case projr (DispatchIteration worker1 1 ex_tired) of
      SwitchedToWaitingFiber old w s \<Rightarrow> old = 2 \<and> w = 3 | _ \<Rightarrow> False) \<and>
   FailedQueuePopAttempts (m_tls ex_switched ! 1) = 24 \<and>
   OldFiberDestination (m_tls ex_switched ! 1) = ToPool \<and>
   \<not> isl (WaitForCounterInternal_resumed worker1 ex_switched) \<and>
   FailedQueuePopAttempts (m_tls ex_resumed ! 1) = 24 \<and>
   CurrentFiber (m_tls ex_resumed ! 1) = Some 3 \<and> live_fibers ex_resumed = [1, 3]"
    by code_simp
  moreover have "\<not> isl (DispatchIteration worker1 1 ex_resumed) \<and>
   (case projr (DispatchIteration worker1 1 ex_resumed) of
      LoopContinues s \<Rightarrow> True | _ \<Rightarrow> False) \<and>
   new_events ex_resumed ex_blocked =
     [Lock (PinnedReadyFibersLock 1), Unlock (PinnedReadyFibersLock 1),
      Lock ThreadSleepLock, Lock (PinnedReadyFibersLock 1), Unlock (PinnedReadyFibersLock 1),
      CVWait, Unlock ThreadSleepLock]"
    by code_simp
  ultimately show ?thesis using t by blast
qed

text \<open>
  C6, amended. Under \<open>Sleep\<close>, a pass that finds no task while the pinned list was empty
  runs lines 296-316 (a pass that finds a task resets the count instead): the worker adds
  one to \<^verbatim>\<open>FailedQueuePopAttempts\<close> and, if the count is now at least 25, takes
  \<^verbatim>\<open>ThreadSleepLock\<close> and its own \<^verbatim>\<open>PinnedReadyFibersLock\<close>; if the pinned list is empty it
  releases the latter and waits on the condition variable, if not it does not wait; either
  way the count is reset to \<open>0\<close>. Below 25 nothing is locked and nothing waits. So from a
  count of \<open>0\<close> the first 24 such passes do not wait and the 25th does.
\<close>

theorem EmptyQueue_waits_on_25th_failure:
  assumes "ti < length (m_tls s)" and "m_emptyQueueBehavior s = Sleep"
  shows
   "(kFailedPopAttemptsHeuristic \<le> FailedQueuePopAttempts (m_tls s ! ti) + 1 \<and>
     PinnedReadyFibers (m_tls s ! ti) = [] \<longrightarrow>
       new_events s (EmptyQueue ti s) =
         [Lock ThreadSleepLock, Lock (PinnedReadyFibersLock ti), Unlock (PinnedReadyFibersLock ti),
          CVWait, Unlock ThreadSleepLock] \<and>
       FailedQueuePopAttempts (m_tls (EmptyQueue ti s) ! ti) = 0) \<and>
    (kFailedPopAttemptsHeuristic \<le> FailedQueuePopAttempts (m_tls s ! ti) + 1 \<and>
     PinnedReadyFibers (m_tls s ! ti) \<noteq> [] \<longrightarrow>
       new_events s (EmptyQueue ti s) =
         [Lock ThreadSleepLock, Lock (PinnedReadyFibersLock ti), Unlock (PinnedReadyFibersLock ti),
          Unlock ThreadSleepLock] \<and>
       FailedQueuePopAttempts (m_tls (EmptyQueue ti s) ! ti) = 0) \<and>
    (FailedQueuePopAttempts (m_tls s ! ti) + 1 < kFailedPopAttemptsHeuristic \<longrightarrow>
       new_events s (EmptyQueue ti s) = [] \<and>
       FailedQueuePopAttempts (m_tls (EmptyQueue ti s) ! ti) = FailedQueuePopAttempts (m_tls s ! ti) + 1) \<and>
    (FailedQueuePopAttempts (m_tls s ! ti) = 0 \<and> k < 25 \<longrightarrow>
       new_events s ((EmptyQueue ti ^^ k) s) = [] \<and>
       FailedQueuePopAttempts (m_tls ((EmptyQueue ti ^^ k) s) ! ti) = word_of_nat k) \<and>
    (FailedQueuePopAttempts (m_tls s ! ti) = 0 \<and> PinnedReadyFibers (m_tls s ! ti) = [] \<longrightarrow>
       new_events s ((EmptyQueue ti ^^ 25) s) =
         [Lock ThreadSleepLock, Lock (PinnedReadyFibersLock ti), Unlock (PinnedReadyFibersLock ti),
          CVWait, Unlock ThreadSleepLock]) \<and>
    (\<not> m_quit s0 \<and> ti < length (m_tls s0) \<and>
     find_work p ti s0 = Inr (readyWaitingFibers, foundTask, None, nextTask, s) \<longrightarrow>
       DispatchIteration p ti s0 =
         Inr (if foundTask
              then InvokesTask nextTask
                     (update_tls ti (\<lambda>tls. tls\<lparr>FailedQueuePopAttempts := 0\<rparr>) s)
              else if \<not> readyWaitingFibers then LoopContinues (EmptyQueue ti s)
              else LoopContinues s))"
proof (intro conjI impI)
  assume a: "FailedQueuePopAttempts (m_tls s ! ti) = 0 \<and> PinnedReadyFibers (m_tls s ! ti) = []"
  define s24 where "s24 = (EmptyQueue ti ^^ 24) s"
  from EmptyQueue_idle_passes [OF assms, of 24] a
  have p: "events s24 = events s" "FailedQueuePopAttempts (m_tls s24 ! ti) = 24"
    "ti < length (m_tls s24)" "m_emptyQueueBehavior s24 = Sleep"
    "PinnedReadyFibers (m_tls s24 ! ti) = []"
    by (simp_all add: s24_def)
  have "(EmptyQueue ti ^^ 25) s = EmptyQueue ti s24"
    by (simp add: s24_def eval_nat_numeral)
  with p show "new_events s ((EmptyQueue ti ^^ 25) s) =
         [Lock ThreadSleepLock, Lock (PinnedReadyFibersLock ti), Unlock (PinnedReadyFibersLock ti),
          CVWait, Unlock ThreadSleepLock]"
    by (simp add: new_events_def EmptyQueue_def Let_def update_tls_def emit_def
          kFailedPopAttemptsHeuristic_def)
next
  assume a: "FailedQueuePopAttempts (m_tls s ! ti) = 0 \<and> k < 25"
  with EmptyQueue_idle_passes [OF assms, of k]
  show "new_events s ((EmptyQueue ti ^^ k) s) = []"
    and "FailedQueuePopAttempts (m_tls ((EmptyQueue ti ^^ k) s) ! ti) = word_of_nat k"
    by (simp_all add: new_events_def)
next
  assume "\<not> m_quit s0 \<and> ti < length (m_tls s0) \<and>
     find_work p ti s0 = Inr (readyWaitingFibers, foundTask, None, nextTask, s)"
  then show "DispatchIteration p ti s0 =
         Inr (if foundTask
              then InvokesTask nextTask
                     (update_tls ti (\<lambda>tls. tls\<lparr>FailedQueuePopAttempts := 0\<rparr>) s)
              else if \<not> readyWaitingFibers then LoopContinues (EmptyQueue ti s)
              else LoopContinues s)"
    by (simp add: DispatchIteration_def)
qed (use assms in \<open>auto simp: new_events_def EmptyQueue_def Let_def update_tls_def emit_def\<close>)

theorem EmptyQueue_waits_on_25th_failure_witness:
  "new_events ex_resumed (EmptyQueue 1 ex_resumed) =
     [Lock ThreadSleepLock, Lock (PinnedReadyFibersLock 1), Unlock (PinnedReadyFibersLock 1),
      CVWait, Unlock ThreadSleepLock] \<and>
   FailedQueuePopAttempts (m_tls (EmptyQueue 1 ex_resumed) ! 1) = 0 \<and>
   new_events ex_tired (EmptyQueue 1 ex_tired) =
     [Lock ThreadSleepLock, Lock (PinnedReadyFibersLock 1), Unlock (PinnedReadyFibersLock 1),
      Unlock ThreadSleepLock] \<and>
   new_events ex_running (EmptyQueue 1 ex_running) = [] \<and>
   FailedQueuePopAttempts (m_tls (EmptyQueue 1 ex_running) ! 1) = 1 \<and>
   new_events ex_running ((EmptyQueue 1 ^^ 24) ex_running) = [] \<and>
   FailedQueuePopAttempts (m_tls ((EmptyQueue 1 ^^ 24) ex_running) ! 1) = 24 \<and>
   new_events ex_running ((EmptyQueue 1 ^^ 25) ex_running) =
     [Lock ThreadSleepLock, Lock (PinnedReadyFibersLock 1), Unlock (PinnedReadyFibersLock 1),
      CVWait, Unlock ThreadSleepLock] \<and>
   DispatchIteration worker1 1 ex_running =
     Inr (LoopContinues (EmptyQueue 1 (snd (snd (snd (snd (projr (find_work worker1 1 ex_running))))))))"
proof -
  let ?X = "find_work worker1 1 ex_running"
  let ?nt = "fst (snd (snd (snd (projr ?X))))"
  let ?s1 = "snd (snd (snd (snd (projr ?X))))"
  have r: "1 < length (m_tls ex_running)" "m_emptyQueueBehavior ex_running = Sleep"
    "FailedQueuePopAttempts (m_tls ex_running ! 1) = 0" "PinnedReadyFibers (m_tls ex_running ! 1) = []"
    "\<not> m_quit ex_running"
    by code_simp+
  have t: "1 < length (m_tls ex_tired)" "m_emptyQueueBehavior ex_tired = Sleep"
    "FailedQueuePopAttempts (m_tls ex_tired ! 1) = 24" "PinnedReadyFibers (m_tls ex_tired ! 1) = [1]"
    by code_simp+
  have u: "1 < length (m_tls ex_resumed)" "m_emptyQueueBehavior ex_resumed = Sleep"
    "FailedQueuePopAttempts (m_tls ex_resumed ! 1) = 24" "PinnedReadyFibers (m_tls ex_resumed ! 1) = []"
    by code_simp+
  have x: "\<not> isl ?X" "\<not> fst (projr ?X)" "\<not> fst (snd (projr ?X))" "fst (snd (snd (projr ?X))) = None"
    "1 < length (m_tls ?s1)" "m_emptyQueueBehavior ?s1 = Sleep"
    by code_simp+
  from x(1) have "?X = Inr (projr ?X)" by simp
  also have "projr ?X = (False, False, None, ?nt, ?s1)"
    using x(2,3,4) by (simp add: prod_eq_iff)
  finally have X: "?X = Inr (False, False, None, ?nt, ?s1)" .
  from EmptyQueue_waits_on_25th_failure [OF u(1,2), THEN conjunct1] u(3,4)
  have 1: "new_events ex_resumed (EmptyQueue 1 ex_resumed) =
     [Lock ThreadSleepLock, Lock (PinnedReadyFibersLock 1), Unlock (PinnedReadyFibersLock 1),
      CVWait, Unlock ThreadSleepLock] \<and>
     FailedQueuePopAttempts (m_tls (EmptyQueue 1 ex_resumed) ! 1) = 0"
    by (simp add: kFailedPopAttemptsHeuristic_def)
  from EmptyQueue_waits_on_25th_failure [OF t(1,2), THEN conjunct2, THEN conjunct1] t(3,4)
  have 2: "new_events ex_tired (EmptyQueue 1 ex_tired) =
     [Lock ThreadSleepLock, Lock (PinnedReadyFibersLock 1), Unlock (PinnedReadyFibersLock 1),
      Unlock ThreadSleepLock]"
    by (simp add: kFailedPopAttemptsHeuristic_def)
  from EmptyQueue_waits_on_25th_failure [OF r(1,2), THEN conjunct2, THEN conjunct2, THEN conjunct1] r(3)
  have 3: "new_events ex_running (EmptyQueue 1 ex_running) = [] \<and>
     FailedQueuePopAttempts (m_tls (EmptyQueue 1 ex_running) ! 1) = 1"
    by (simp add: kFailedPopAttemptsHeuristic_def)
  from EmptyQueue_waits_on_25th_failure
    [OF r(1,2), of 24, THEN conjunct2, THEN conjunct2, THEN conjunct2, THEN conjunct1] r(3)
  have 4: "new_events ex_running ((EmptyQueue 1 ^^ 24) ex_running) = [] \<and>
     FailedQueuePopAttempts (m_tls ((EmptyQueue 1 ^^ 24) ex_running) ! 1) = 24"
    by simp
  from EmptyQueue_waits_on_25th_failure
    [OF r(1,2), THEN conjunct2, THEN conjunct2, THEN conjunct2, THEN conjunct2, THEN conjunct1] r(3,4)
  have 5: "new_events ex_running ((EmptyQueue 1 ^^ 25) ex_running) =
     [Lock ThreadSleepLock, Lock (PinnedReadyFibersLock 1), Unlock (PinnedReadyFibersLock 1),
      CVWait, Unlock ThreadSleepLock]"
    by simp
  from EmptyQueue_waits_on_25th_failure
    [OF x(5,6), of _ ex_running worker1 False False ?nt,
     THEN conjunct2, THEN conjunct2, THEN conjunct2, THEN conjunct2, THEN conjunct2] r(1,5) X
  have 6: "DispatchIteration worker1 1 ex_running = Inr (LoopContinues (EmptyQueue 1 ?s1))"
    by simp
  from 1 2 3 4 5 6 show ?thesis by simp
qed

subsection \<open>The handshake on FiberIsSwitched\<close>

lemma live_bundles_emit [simp]: "live_bundles (emit e s) = live_bundles s"
  by (simp add: emit_def)

lemma m_mainFiber_emit [simp]: "m_mainFiber (emit e s) = m_mainFiber s"
  by (simp add: emit_def)

lemma listed_emit [simp]: "listed b (emit e s) = listed b s"
  by (simp add: listed_def emit_def)












end
